theory Spec2Isabelle
  imports Complex_Main "HOL-Library.AList"
begin

section \<open>Numbers, errors and bounding boxes\<close>

text \<open>
  The two scripts \<^verbatim>\<open>remove-duplicates.py\<close> and \<^verbatim>\<open>reassign.py\<close> work on
  bounding boxes \<^verbatim>\<open>(x_min, y_min, x_max, y_max)\<close> annotated as
  \<^verbatim>\<open>Tuple[int, int, int, int]\<close>. Coordinates are Python integers (\<open>int\<close>), and
  every exception the Python can raise is a value \<open>Inl e\<close>.

  Python's \<^verbatim>\<open>/\<close> on two integers returns the double nearest to their quotient; the
  model keeps the quotient itself, a rational number. The scripts only compare such
  quotients (with \<^verbatim>\<open>0.5\<close>, with \<^verbatim>\<open>0\<close> and with one another over one divisor), and
  for a divisor below \<open>2^53\<close> each comparison of the doubles decides as the comparison
  of the quotients does: two quotients over a divisor \<open>d\<close> differ by at least \<open>1/d\<close>,
  more than the spacing \<open>2^-53\<close> of the doubles below \<open>1\<close>, and a quotient above \<open>1/2\<close>
  exceeds it by at least \<open>1/(2d)\<close>, more than half that spacing. The statements that
  depend on the outcome of such a comparison therefore assume boxes with coordinates
  in \<open>[0, 2^26)\<close>, whose areas are below \<open>2^52\<close> (\<open>small_box\<close> below); beyond that
  range the rounding of the double can decide a comparison the other way. The lemmas
  \<open>rounded_half_test\<close> and \<open>rounded_order_test\<close> prove the agreement for every rounding
  that is monotone and within \<open>2^-54\<close> of its argument.
\<close>

datatype py_error = IndexError | KeyError | TypeError | ZeroDivisionError

type_synonym bbox = "int \<times> int \<times> int \<times> int"

text \<open>
  Python's \<^verbatim>\<open>a / b\<close> on integers: raises on a zero divisor, and otherwise gives the
  quotient (exact here, rounded to a double in Python, see above).
\<close>

definition truediv :: "int \<Rightarrow> int \<Rightarrow> py_error + rat" where
  "truediv a b = (if b = 0 then Inl ZeroDivisionError else Inr (of_int a / of_int b))"

subsection \<open>\<^verbatim>\<open>iou\<close> (remove-duplicates.py)\<close>

fun iou :: "bbox \<Rightarrow> bbox \<Rightarrow> py_error + rat" where
  "iou (a0, a1, a2, a3) (b0, b1, b2, b3) =
     (let xA = max a0 b0;
          yA = max a1 b1;
          xB = min a2 b2;
          yB = min a3 b3;
          inter_width = max 0 (xB - xA);
          inter_height = max 0 (yB - yA);
          inter_area = inter_width * inter_height
      in if inter_area = 0 then Inr 0
         else
           (let areaA = (a2 - a0) * (a3 - a1);
                areaB = (b2 - b0) * (b3 - b1);
                union_area = areaA + areaB - inter_area
            in truediv inter_area union_area))"

subsection \<open>\<^verbatim>\<open>rel_intersection\<close> (reassign.py)\<close>

fun rel_intersection :: "bbox \<Rightarrow> bbox \<Rightarrow> py_error + rat" where
  "rel_intersection (a0, a1, a2, a3) (b0, b1, b2, b3) =
     (let x_a = max a0 b0;
          y_a = max a1 b1;
          x_b = min a2 b2;
          y_b = min a3 b3;
          width_a = \<bar>a0 - a2\<bar>;
          height_a = \<bar>a1 - a3\<bar>
      in if width_a = 0 \<or> height_a = 0 then Inr 0
         else
           (let inter_width = max 0 (x_b - x_a);
                inter_height = max 0 (y_b - y_a)
            in truediv (inter_width * inter_height) (width_a * height_a)))"

section \<open>Masks and the bounding-box extractor\<close>

text \<open>
  A mask is a list of points whose coordinates all have one representation (the data
  model has no mixed polygon): bare numbers, or numbers wrapped as
  \<^verbatim>\<open>{"parsedValue": n}\<close>. A point is the pair of its two numbers. A key of a JSON
  object can be absent, hold \<^verbatim>\<open>null\<close>, or hold a value.
\<close>

type_synonym point = "int \<times> int"

datatype polygon = Bare "point list" | Parsed "point list"

datatype 'a field = Absent | Null | Val 'a

fun points :: "polygon \<Rightarrow> point list" where
  "points (Bare pts) = pts"
| "points (Parsed pts) = pts"

text \<open>
  \<^verbatim>\<open>extract_bbox\<close> (the same function in both scripts). \<^verbatim>\<open>mask[0][0]\<close> raises
  \<^verbatim>\<open>IndexError\<close> on an empty mask. The test \<^verbatim>\<open>isinstance(mask[0][0], dict)\<close> on
  the first coordinate of the first point chooses between reading every coordinate
  through \<^verbatim>\<open>["parsedValue"]\<close> and reading it as it is; both branches end in the same
  four \<^verbatim>\<open>min\<close> and \<^verbatim>\<open>max\<close>.
\<close>

fun extract_bbox :: "polygon \<Rightarrow> py_error + bbox" where
  "extract_bbox (Parsed []) = Inl IndexError"
| "extract_bbox (Bare []) = Inl IndexError"
| "extract_bbox (Parsed pts) =
     (let xs = map fst pts; ys = map snd pts
      in Inr (Min (set xs), Min (set ys), Max (set xs), Max (set ys)))"
| "extract_bbox (Bare pts) =
     (let xs = map fst pts; ys = map snd pts
      in Inr (Min (set xs), Min (set ys), Max (set xs), Max (set ys)))"

text \<open>
  \<^verbatim>\<open>extract_bbox(obj["mask"])\<close> on the value of a key: a missing key raises
  \<^verbatim>\<open>KeyError\<close>, and \<^verbatim>\<open>None[0]\<close> raises \<^verbatim>\<open>TypeError\<close>.
\<close>

fun extract_field :: "polygon field \<Rightarrow> py_error + bbox" where
  "extract_field Absent = Inl KeyError"
| "extract_field Null = Inl TypeError"
| "extract_field (Val m) = extract_bbox m"

text \<open>The truth value of \<^verbatim>\<open>obj.get("mask")\<close>: only a non-empty list is true.\<close>

fun truthy :: "polygon field \<Rightarrow> bool" where
  "truthy (Val m) = (points m \<noteq> [])"
| "truthy _ = False"

text \<open>\<^verbatim>\<open>obj.get(key)\<close>: \<^verbatim>\<open>None\<close> for a missing key and for \<^verbatim>\<open>null\<close>.\<close>

fun field_get :: "'a field \<Rightarrow> 'a option" where
  "field_get (Val v) = Some v"
| "field_get _ = None"

section \<open>Lines and regions\<close>

text \<open>
  A line is the JSON object of the remote store: the keys the scripts read
  (\<^verbatim>\<open>pk\<close>, \<^verbatim>\<open>mask\<close>, \<^verbatim>\<open>region\<close>) and its other keys, which they never read. A
  region has a \<^verbatim>\<open>pk\<close> and a \<^verbatim>\<open>box\<close>.
\<close>

record line =
  pk :: int
  mask :: "polygon field"
  region :: "int field"
  other_keys :: "(string \<times> string) list"

record region_obj =
  region_pk :: int
  box :: "polygon field"

section \<open>\<^verbatim>\<open>detect_duplicates_to_delete\<close> (remove-duplicates.py)\<close>

text \<open>
  The dictionary comprehension \<^verbatim>\<open>{line["pk"]: extract_bbox(line["mask"]) for line in
  lines if line.get("mask")}\<close>. A Python dictionary keeps its keys in the order of
  their first insertion and a later value replaces an earlier one in place, which is
  \<^const>\<open>AList.update\<close> on an association list.
\<close>

fun line_bboxes :: "line list \<Rightarrow> (int \<times> bbox) list \<Rightarrow> py_error + (int \<times> bbox) list" where
  "line_bboxes [] bboxes = Inr bboxes"
| "line_bboxes (l # ls) bboxes =
     (if truthy (mask l)
      then (case extract_field (mask l) of
              Inl e \<Rightarrow> Inl e
            | Inr b \<Rightarrow> line_bboxes ls (AList.update (pk l) b bboxes))
      else line_bboxes ls bboxes)"

text \<open>\<^verbatim>\<open>itertools.combinations(xs, 2)\<close>, in its order.\<close>

fun combinations2 :: "'a list \<Rightarrow> ('a \<times> 'a) list" where
  "combinations2 [] = []"
| "combinations2 (x # xs) = map (Pair x) xs @ combinations2 xs"

text \<open>\<^verbatim>\<open>tuple(sorted((id1, id2)))\<close>.\<close>

definition pair_key :: "int \<Rightarrow> int \<Rightarrow> int \<times> int" where
  "pair_key id1 id2 = (min id1 id2, max id1 id2)"

text \<open>\<^verbatim>\<open>delete_id = id1 if box1[0] < box2[0] else id2\<close>.\<close>

definition delete_id :: "int \<times> bbox \<Rightarrow> int \<times> bbox \<Rightarrow> int" where
  "delete_id e1 e2 = (if fst (snd e1) < fst (snd e2) then fst e1 else fst e2)"

text \<open>The loop over the pairs, with its two sets as accumulators.\<close>

fun duplicates_loop ::
  "((int \<times> bbox) \<times> (int \<times> bbox)) list \<Rightarrow> int set \<Rightarrow> (int \<times> int) set \<Rightarrow> py_error + int set"
where
  "duplicates_loop [] to_delete checked_pairs = Inr to_delete"
| "duplicates_loop ((e1, e2) # ps) to_delete checked_pairs =
     (if pair_key (fst e1) (fst e2) \<in> checked_pairs
      then duplicates_loop ps to_delete checked_pairs
      else (case iou (snd e1) (snd e2) of
              Inl e \<Rightarrow> Inl e
            | Inr score \<Rightarrow>
                if score > 1 / 2
                then duplicates_loop ps (insert (delete_id e1 e2) to_delete)
                       (insert (pair_key (fst e1) (fst e2)) checked_pairs)
                else duplicates_loop ps to_delete
                       (insert (pair_key (fst e1) (fst e2)) checked_pairs)))"

text \<open>
  The result is the set \<^verbatim>\<open>to_delete\<close>; \<^verbatim>\<open>list(to_delete)\<close> lists its elements once
  each, in an order the language does not fix.
\<close>

definition detect_duplicates_to_delete :: "line list \<Rightarrow> py_error + int set" where
  "detect_duplicates_to_delete lines =
     (case line_bboxes lines [] of
        Inl e \<Rightarrow> Inl e
      | Inr bboxes \<Rightarrow> duplicates_loop (combinations2 bboxes) {} {})"

section \<open>\<^verbatim>\<open>detect_reassignment\<close> (reassign.py)\<close>

text \<open>
  \<^verbatim>\<open>{region["pk"]: extract_bbox(region["box"]) for region in regions if
  region.get("box")}\<close>.
\<close>

fun region_bboxes ::
  "region_obj list \<Rightarrow> (int \<times> bbox) list \<Rightarrow> py_error + (int \<times> bbox) list"
where
  "region_bboxes [] bboxes = Inr bboxes"
| "region_bboxes (r # rs) bboxes =
     (if truthy (box r)
      then (case extract_field (box r) of
              Inl e \<Rightarrow> Inl e
            | Inr b \<Rightarrow> region_bboxes rs (AList.update (region_pk r) b bboxes))
      else region_bboxes rs bboxes)"

text \<open>
  The inner loop over \<^verbatim>\<open>region_bboxes.items()\<close>, with \<^verbatim>\<open>best_idx\<close> and
  \<^verbatim>\<open>best_intersection\<close> as accumulators. \<^verbatim>\<open>extract_bbox(line["mask"])\<close> is evaluated
  in the body, so only when there is a region box to compare with.
\<close>

fun best_region ::
  "(int \<times> bbox) list \<Rightarrow> polygon field \<Rightarrow> int \<Rightarrow> rat \<Rightarrow> py_error + (int \<times> rat)"
where
  "best_region [] m best_idx best_intersection = Inr (best_idx, best_intersection)"
| "best_region ((idx, zone) # rest) m best_idx best_intersection =
     (case extract_field m of
        Inl e \<Rightarrow> Inl e
      | Inr line_box \<Rightarrow>
          (case rel_intersection line_box zone of
             Inl e \<Rightarrow> Inl e
           | Inr current_intersection \<Rightarrow>
               if current_intersection > best_intersection \<and> current_intersection > 0
               then best_region rest m idx current_intersection
               else best_region rest m best_idx best_intersection))"

text \<open>
  The lines are Python objects that the function updates in place and returns: the
  store maps an object's address to its current value, \<^verbatim>\<open>lines\<close> is a list of
  addresses, and so is \<^verbatim>\<open>require_updates\<close>.
\<close>

type_synonym addr = nat
type_synonym store = "addr \<Rightarrow> line"

fun reassign_loop ::
  "(int \<times> bbox) list \<Rightarrow> addr list \<Rightarrow> store \<Rightarrow> addr list \<Rightarrow> py_error + (store \<times> addr list)"
where
  "reassign_loop bboxes [] h require_updates = Inr (h, require_updates)"
| "reassign_loop bboxes (a # as) h require_updates =
     (case best_region bboxes (mask (h a)) (- 1) 0 of
        Inl e \<Rightarrow> Inl e
      | Inr (best_idx, best_intersection) \<Rightarrow>
          if best_idx \<noteq> - 1 \<and> Some best_idx \<noteq> field_get (region (h a))
          then reassign_loop bboxes as (h(a := (h a)\<lparr>region := Val best_idx\<rparr>))
                 (require_updates @ [a])
          else reassign_loop bboxes as h require_updates)"

definition detect_reassignment ::
  "addr list \<Rightarrow> region_obj list \<Rightarrow> store \<Rightarrow> py_error + (store \<times> addr list)"
where
  "detect_reassignment lines regions h =
     (case region_bboxes regions [] of
        Inl e \<Rightarrow> Inl e
      | Inr bboxes \<Rightarrow> reassign_loop bboxes lines h [])"

section \<open>Notions used in the statements\<close>

text \<open>The clamped intersection area of two boxes, as both metrics compute it.\<close>

definition inter_area :: "bbox \<Rightarrow> bbox \<Rightarrow> int" where
  "inter_area A B =
     (case (A, B) of ((a0, a1, a2, a3), (b0, b1, b2, b3)) \<Rightarrow>
        max 0 (min a2 b2 - max a0 b0) * max 0 (min a3 b3 - max a1 b1))"

definition area :: "bbox \<Rightarrow> int" where
  "area A = (case A of (a0, a1, a2, a3) \<Rightarrow> (a2 - a0) * (a3 - a1))"

definition iou_value :: "bbox \<Rightarrow> bbox \<Rightarrow> rat" where
  "iou_value A B =
     (if inter_area A B = 0 then 0
      else of_int (inter_area A B) / of_int (area A + area B - inter_area A B))"

text \<open>
  Notions for the duplicate-resolution loop: a pair of dictionary entries is a conflict
  when its score exceeds one half; \<open>nominated\<close> collects what the conflicts of a list of
  pairs select for deletion; \<open>entry_key\<close> is the key the loop remembers for a pair.
\<close>

definition conflict :: "int \<times> bbox \<Rightarrow> int \<times> bbox \<Rightarrow> bool" where
  "conflict e1 e2 \<longleftrightarrow> 1 / 2 < iou_value (snd e1) (snd e2)"

definition nominated :: "((int \<times> bbox) \<times> (int \<times> bbox)) list \<Rightarrow> int set" where
  "nominated ps = (\<lambda>p. delete_id (fst p) (snd p)) ` {p \<in> set ps. conflict (fst p) (snd p)}"

definition entry_key :: "(int \<times> bbox) \<times> (int \<times> bbox) \<Rightarrow> int \<times> int" where
  "entry_key p = pair_key (fst (fst p)) (fst (snd p))"

text \<open>Mapping a function that may fail over a list, stopping at the first failure.\<close>

fun collect :: "('a \<Rightarrow> py_error + 'b) \<Rightarrow> 'a list \<Rightarrow> py_error + 'b list" where
  "collect f [] = Inr []"
| "collect f (x # xs) =
     (case f x of
        Inl e \<Rightarrow> Inl e
      | Inr y \<Rightarrow> (case collect f xs of Inl e \<Rightarrow> Inl e | Inr ys \<Rightarrow> Inr (y # ys)))"

text \<open>
  The lines that pass the filter \<^verbatim>\<open>if line.get("mask")\<close>, in their order, and the
  dictionary entry a line contributes.
\<close>

definition masked :: "line list \<Rightarrow> line list" where
  "masked lines = filter (\<lambda>l. truthy (mask l)) lines"

definition line_entry :: "line \<Rightarrow> py_error + (int \<times> bbox)" where
  "line_entry l = (case extract_field (mask l) of Inl e \<Rightarrow> Inl e | Inr b \<Rightarrow> Inr (pk l, b))"

text \<open>A line with bare-number coordinates, no region and no other key, for examples.\<close>

definition num_line :: "int \<Rightarrow> (int \<times> int) list \<Rightarrow> line" where
  "num_line i pts =
     \<lparr>pk = i, mask = Val (Bare pts), region = Null, other_keys = []\<rparr>"


text \<open>The value of \<^verbatim>\<open>rel_intersection\<close>, which never raises.\<close>

definition rel_value :: "bbox \<Rightarrow> bbox \<Rightarrow> rat" where
  "rel_value A B =
     (case A of (a0, a1, a2, a3) \<Rightarrow>
        if a0 = a2 \<or> a1 = a3 then 0
        else of_int (inter_area A B) / of_int (\<bar>a0 - a2\<bar> * \<bar>a1 - a3\<bar>))"

text \<open>
  Notions for region assignment. \<open>boxed\<close> are the regions that pass the filter
  \<^verbatim>\<open>if region.get("box")\<close>, in their order, and \<open>region_entry\<close> is the dictionary
  entry a region contributes. \<open>overlaps rs l\<close> lists the relative overlap of the box
  of line \<open>l\<close> with the box of each region of \<open>rs\<close>. Position \<open>k\<close> is
  \<open>first_greatest\<close> in a list of overlaps when its value is positive, no value is
  greater, and every earlier value is smaller: the strictly greatest overlap, the
  first encountered among equals. \<open>best_candidate rs l k\<close> says that the region at
  position \<open>k\<close> of \<open>rs\<close> is that best region for line \<open>l\<close>.
\<close>

definition boxed :: "region_obj list \<Rightarrow> region_obj list" where
  "boxed regions = filter (\<lambda>r. truthy (box r)) regions"


definition overlaps :: "region_obj list \<Rightarrow> line \<Rightarrow> py_error + rat list" where
  "overlaps rs l =
     (case extract_field (mask l) of
        Inl e \<Rightarrow> Inl e
      | Inr lb \<Rightarrow>
          collect (\<lambda>r. case extract_field (box r) of
                         Inl e \<Rightarrow> Inl e
                       | Inr z \<Rightarrow> rel_intersection lb z) rs)"

definition first_greatest :: "rat list \<Rightarrow> nat \<Rightarrow> bool" where
  "first_greatest vs k \<longleftrightarrow>
     k < length vs \<and> 0 < vs ! k \<and> (\<forall>j < length vs. vs ! j \<le> vs ! k) \<and> (\<forall>j < k. vs ! j < vs ! k)"

definition best_candidate :: "region_obj list \<Rightarrow> line \<Rightarrow> nat \<Rightarrow> bool" where
  "best_candidate rs l k \<longleftrightarrow>
     (case overlaps rs l of Inl e \<Rightarrow> False | Inr vs \<Rightarrow> first_greatest vs k)"


definition settled :: "(int \<times> bbox) list \<Rightarrow> line \<Rightarrow> bool" where
  "settled rb l \<longleftrightarrow>
     (case best_region rb (mask l) (- 1) 0 of
        Inl e \<Rightarrow> False
      | Inr (b, v) \<Rightarrow> \<not> (b \<noteq> - 1 \<and> Some b \<noteq> field_get (region l)))"

text \<open>A region with bare-number coordinates, and a store holding one line, for examples.\<close>

definition num_region :: "int \<Rightarrow> (int \<times> int) list \<Rightarrow> region_obj" where
  "num_region i pts = \<lparr>region_pk = i, box = Val (Bare pts)\<rparr>"

definition one_line :: "line \<Rightarrow> store" where
  "one_line l = (\<lambda>a. l)"

section \<open>Properties of the overlap metrics\<close>

lemma inter_area_nonneg: "0 \<le> inter_area A B"
  by (cases A; cases B) (simp add: inter_area_def)

lemma inter_area_commute: "inter_area A B = inter_area B A"
  by (cases A; cases B) (simp add: inter_area_def max.commute min.commute)

lemma inter_area_le_area:
  assumes "inter_area A B \<noteq> 0"
  shows "inter_area A B \<le> area A" and "0 < area A"
proof -
  obtain a0 a1 a2 a3 where A: "A = (a0, a1, a2, a3)" by (cases A)
  obtain b0 b1 b2 b3 where B: "B = (b0, b1, b2, b3)" by (cases B)
  let ?w = "max 0 (min a2 b2 - max a0 b0)"
  let ?h = "max 0 (min a3 b3 - max a1 b1)"
  from assms have nz: "?w \<noteq> 0" "?h \<noteq> 0"
    by (auto simp: inter_area_def A B)
  then have pos: "0 < ?w" "0 < ?h" by linarith+
  then have le: "?w \<le> a2 - a0" "?h \<le> a3 - a1" by linarith+
  have "?w * ?h \<le> (a2 - a0) * (a3 - a1)"
    using le pos by (intro mult_mono) linarith+
  then show "inter_area A B \<le> area A"
    by (simp add: inter_area_def area_def A B)
  have "0 < (a2 - a0) * (a3 - a1)"
    using le pos by (intro mult_pos_pos) linarith+
  then show "0 < area A"
    by (simp add: area_def A)
qed

text \<open>
  The divisor of \<^verbatim>\<open>iou\<close> is never zero: a non-zero intersection forces both boxes to
  have positive width and height, so \<^verbatim>\<open>iou\<close> never raises and has this closed form.
\<close>

lemma union_area_pos:
  assumes "inter_area A B \<noteq> 0"
  shows "0 < area A + area B - inter_area A B"
proof -
  have "inter_area B A \<noteq> 0" using assms by (simp add: inter_area_commute)
  then have "inter_area B A \<le> area B" by (rule inter_area_le_area)
  then have "inter_area A B \<le> area B" by (simp add: inter_area_commute)
  moreover have "0 < area A" using assms by (rule inter_area_le_area)
  ultimately show ?thesis by linarith
qed

lemma iou_closed_form:
  "iou A B =
     Inr (if inter_area A B = 0 then 0
          else of_int (inter_area A B) / of_int (area A + area B - inter_area A B))"
proof -
  obtain a0 a1 a2 a3 where A: "A = (a0, a1, a2, a3)" by (cases A)
  obtain b0 b1 b2 b3 where B: "B = (b0, b1, b2, b3)" by (cases B)
  show ?thesis
  proof (cases "inter_area A B = 0")
    case True
    then show ?thesis by (simp add: A B inter_area_def Let_def)
  next
    case False
    then have "area A + area B - inter_area A B \<noteq> 0"
      using union_area_pos [of A B] by simp
    with False show ?thesis
      by (simp add: A B inter_area_def area_def Let_def truediv_def)
  qed
qed

text \<open>
  C6. \<^verbatim>\<open>iou\<close> is symmetric: \<open>iou A B = iou B A\<close> for all boxes, in particular for
  the boxes with \<open>x_min \<le> x_max\<close> and \<open>y_min \<le> y_max\<close> that the extractor produces.
\<close>

theorem iou_symmetric: "iou A B = iou B A"
  by (simp add: iou_closed_form inter_area_commute add.commute)

text \<open>
  C7. For a box of positive width and positive height, \<open>iou A A = 1\<close>.
\<close>

theorem iou_self:
  assumes "a0 < a2" and "a1 < a3"
  shows "iou (a0, a1, a2, a3) (a0, a1, a2, a3) = Inr 1"
proof -
  let ?A = "(a0, a1, a2, a3)"
  have ia: "inter_area ?A ?A = area ?A"
    using assms by (simp add: inter_area_def area_def max_def)
  have pos: "0 < area ?A"
    using assms by (simp add: area_def)
  have "iou ?A ?A = Inr (rat_of_int (area ?A) / rat_of_int (area ?A))"
    using pos by (simp add: iou_closed_form ia)
  also have "rat_of_int (area ?A) / rat_of_int (area ?A) = 1"
    using pos by simp
  finally show ?thesis .
qed

theorem iou_self_witness: "iou (0, 0, 10, 10) (0, 0, 10, 10) = Inr 1"
  using iou_self [of 0 10 0 10] by simp

text \<open>
  \<^verbatim>\<open>rel_intersection\<close> never raises either: the divisor is guarded by the test for a
  degenerate first box.
\<close>

lemma rel_intersection_closed_form:
  "rel_intersection (a0, a1, a2, a3) B =
     Inr (if a0 = a2 \<or> a1 = a3 then 0
          else of_int (inter_area (a0, a1, a2, a3) B) / of_int (\<bar>a0 - a2\<bar> * \<bar>a1 - a3\<bar>))"
  by (cases B) (simp add: inter_area_def Let_def truediv_def)

text \<open>
  C8. \<^verbatim>\<open>rel_intersection\<close> returns \<open>0\<close> whenever its first box has zero width or zero
  height, for any second box. Otherwise, for a first box with \<open>x_min \<le> x_max\<close> and
  \<open>y_min \<le> y_max\<close>, it returns the clamped intersection area divided by the area of
  the first box, a value between \<open>0\<close> and \<open>1\<close> (whatever the second box is).
\<close>

theorem rel_intersection_spec:
  "(a0 = a2 \<or> a1 = a3 \<longrightarrow> rel_intersection (a0, a1, a2, a3) B = Inr 0) \<and>
   (a0 \<le> a2 \<and> a1 \<le> a3 \<and> a0 \<noteq> a2 \<and> a1 \<noteq> a3 \<longrightarrow>
      rel_intersection (a0, a1, a2, a3) B =
        Inr (of_int (inter_area (a0, a1, a2, a3) B) / of_int (area (a0, a1, a2, a3))) \<and>
      (0::rat) \<le> of_int (inter_area (a0, a1, a2, a3) B) / of_int (area (a0, a1, a2, a3)) \<and>
      of_int (inter_area (a0, a1, a2, a3) B) / of_int (area (a0, a1, a2, a3)) \<le> (1::rat))"
proof (intro conjI impI)
  assume "a0 = a2 \<or> a1 = a3"
  then show "rel_intersection (a0, a1, a2, a3) B = Inr 0"
    by (simp add: rel_intersection_closed_form)
next
  let ?A = "(a0, a1, a2, a3)"
  let ?r = "rat_of_int (inter_area ?A B) / rat_of_int (area ?A)"
  assume h: "a0 \<le> a2 \<and> a1 \<le> a3 \<and> a0 \<noteq> a2 \<and> a1 \<noteq> a3"
  then have lt: "a0 < a2" "a1 < a3" by simp_all
  then have pos: "0 < area ?A"
    by (simp add: area_def)
  have abs_eq: "\<bar>a0 - a2\<bar> * \<bar>a1 - a3\<bar> = area ?A"
    using lt by (simp add: area_def abs_if)
  have le: "inter_area ?A B \<le> area ?A"
  proof (cases "inter_area ?A B = 0")
    case True
    then show ?thesis using pos by simp
  next
    case False
    then show ?thesis by (rule inter_area_le_area)
  qed
  have "rel_intersection ?A B =
      Inr (rat_of_int (inter_area ?A B) / rat_of_int (\<bar>a0 - a2\<bar> * \<bar>a1 - a3\<bar>))"
    using lt by (simp only: rel_intersection_closed_form) simp
  then show "rel_intersection ?A B = Inr ?r"
    by (simp only: abs_eq)
  show "0 \<le> ?r"
    using pos inter_area_nonneg [of ?A B] by simp
  show "?r \<le> 1"
    using pos le by simp
qed

theorem rel_intersection_spec_witness:
  "rel_intersection (3, 0, 3, 8) (0, 0, 10, 10) = Inr 0 \<and>
   rel_intersection (0, 0, 10, 10) (5, 5, 20, 20) = Inr (1 / 4) \<and>
   inter_area (0, 0, 10, 10) (5, 5, 20, 20) = 25 \<and> area (0, 0, 10, 10) = 100"
  using rel_intersection_spec [of 3 3 0 8 "(0, 0, 10, 10)"]
    rel_intersection_spec [of 0 10 0 10 "(5, 5, 20, 20)"]
  by (simp add: inter_area_def area_def)

section \<open>Duplicate resolution\<close>

lemma iou_eq: "iou A B = Inr (iou_value A B)"
  by (simp add: iou_closed_form iou_value_def)

lemma iou_value_commute: "iou_value A B = iou_value B A"
  by (simp add: iou_value_def inter_area_commute add.commute)

lemma pair_key_eq: "pair_key a b = pair_key c d \<Longrightarrow> {a, b} = {c, d}"
  by (auto simp: pair_key_def min_def max_def split: if_splits)

lemma combinations2_members:
  "(p, q) \<in> set (combinations2 xs) \<Longrightarrow> p \<in> set xs \<and> q \<in> set xs"
  by (induction xs) auto

lemma combinations2_nth:
  "set (combinations2 xs) = {(xs ! i, xs ! j) | i j. i < j \<and> j < length xs}"
proof (induction xs)
  case Nil
  show ?case by simp
next
  case (Cons x xs)
  show ?case
  proof (rule set_eqI, rule iffI)
    fix p
    assume "p \<in> set (combinations2 (x # xs))"
    then consider y where "p = (x, y)" "y \<in> set xs" | "p \<in> set (combinations2 xs)"
      by auto
    then show "p \<in> {((x # xs) ! i, (x # xs) ! j) | i j. i < j \<and> j < length (x # xs)}"
    proof cases
      case 1
      then obtain k where "k < length xs" "y = xs ! k"
        by (auto simp: in_set_conv_nth)
      then have "p = ((x # xs) ! 0, (x # xs) ! Suc k) \<and> 0 < Suc k \<and> Suc k < length (x # xs)"
        using 1 by simp
      then show ?thesis by blast
    next
      case 2
      then obtain i j where "p = (xs ! i, xs ! j)" "i < j" "j < length xs"
        using Cons.IH by auto
      then have "p = ((x # xs) ! Suc i, (x # xs) ! Suc j) \<and> Suc i < Suc j \<and> Suc j < length (x # xs)"
        by simp
      then show ?thesis by blast
    qed
  next
    fix p
    assume "p \<in> {((x # xs) ! i, (x # xs) ! j) | i j. i < j \<and> j < length (x # xs)}"
    then obtain i j where p: "p = ((x # xs) ! i, (x # xs) ! j)" and ij: "i < j" "j < length (x # xs)"
      by blast
    from ij obtain j' where j': "j = Suc j'" "j' < length xs"
      by (cases j) auto
    show "p \<in> set (combinations2 (x # xs))"
    proof (cases i)
      case 0
      then show ?thesis using p j' by simp
    next
      case (Suc i')
      then have "p = (xs ! i', xs ! j')" "i' < j'" "j' < length xs"
        using p j' ij by simp_all
      then have "p \<in> set (combinations2 xs)"
        using Cons.IH by blast
      then show ?thesis by simp
    qed
  qed
qed

lemma combinations2_keys_distinct:
  "distinct (map fst d) \<Longrightarrow> distinct (map entry_key (combinations2 d))"
proof (induction d)
  case Nil
  show ?case by simp
next
  case (Cons x xs)
  from Cons.prems have dx: "fst x \<notin> fst ` set xs" and dxs: "distinct (map fst xs)"
    by simp_all
  have inj: "inj_on (\<lambda>y. entry_key (x, y)) (set xs)"
  proof (rule inj_onI)
    fix y z
    assume y: "y \<in> set xs" and z: "z \<in> set xs"
      and eq: "entry_key (x, y) = entry_key (x, z)"
    from eq have "pair_key (fst x) (fst y) = pair_key (fst x) (fst z)"
      by (simp add: entry_key_def)
    then have "{fst x, fst y} = {fst x, fst z}"
      by (rule pair_key_eq)
    moreover have "fst y \<noteq> fst x" "fst z \<noteq> fst x" using y z dx by (metis imageI)+
    ultimately have "fst y = fst z" by (auto simp: doubleton_eq_iff)
    with dxs y z show "y = z"
      by (meson distinct_map inj_onD)
  qed
  have d1: "distinct (map entry_key (map (Pair x) xs))"
    using inj dxs by (simp add: distinct_map comp_def)
  have d2: "distinct (map entry_key (combinations2 xs))"
    using Cons.IH dxs by simp
  have disj: "entry_key ` set (map (Pair x) xs) \<inter> entry_key ` set (combinations2 xs) = {}"
  proof (rule ccontr)
    assume "\<not> ?thesis"
    then obtain k where k1: "k \<in> entry_key ` set (map (Pair x) xs)"
      and k2: "k \<in> entry_key ` set (combinations2 xs)"
      by blast
    from k1 have "k \<in> (\<lambda>y. entry_key (x, y)) ` set xs"
      by (simp add: image_image)
    then obtain y where y: "y \<in> set xs" and ky: "k = entry_key (x, y)"
      by blast
    from k2 obtain pq where pq: "pq \<in> set (combinations2 xs)" and kpq: "k = entry_key pq"
      by blast
    obtain p q where pq_eq: "pq = (p, q)" by (cases pq)
    from ky kpq have "pair_key (fst x) (fst y) = pair_key (fst p) (fst q)"
      by (simp add: entry_key_def pq_eq)
    then have "{fst x, fst y} = {fst p, fst q}"
      by (rule pair_key_eq)
    then have "fst x = fst p \<or> fst x = fst q" by (auto simp: doubleton_eq_iff)
    moreover have "p \<in> set xs" "q \<in> set xs"
      using combinations2_members [of p q xs] pq pq_eq by simp_all
    ultimately show False using dx by (metis imageI)
  qed
  show ?case
    using d1 d2 disj by (simp only: combinations2.simps map_append distinct_append set_map)
qed

lemma nominated_Cons:
  "nominated ((e1, e2) # ps) =
     (if conflict e1 e2 then insert (delete_id e1 e2) (nominated ps) else nominated ps)"
proof -
  have "{p \<in> set ((e1, e2) # ps). conflict (fst p) (snd p)} =
      (if conflict e1 e2 then insert (e1, e2) {p \<in> set ps. conflict (fst p) (snd p)}
       else {p \<in> set ps. conflict (fst p) (snd p)})"
    by auto
  then show ?thesis
    unfolding nominated_def by simp
qed

lemma duplicates_loop_nominated:
  "distinct (map entry_key ps) \<Longrightarrow> \<forall>p \<in> set ps. entry_key p \<notin> ck \<Longrightarrow>
   duplicates_loop ps td ck = Inr (td \<union> nominated ps)"
proof (induction ps arbitrary: td ck)
  case Nil
  show ?case by (simp add: nominated_def)
next
  case (Cons p ps)
  obtain e1 e2 where p: "p = (e1, e2)" by (cases p)
  let ?k = "pair_key (fst e1) (fst e2)"
  have k: "entry_key p = ?k" by (simp add: p entry_key_def)
  from Cons.prems have fresh: "?k \<notin> ck" and dist: "distinct (map entry_key ps)"
    and notin: "?k \<notin> entry_key ` set ps" and rest: "\<forall>p \<in> set ps. entry_key p \<notin> ck"
    by (simp_all add: k)
  have rest': "\<forall>p \<in> set ps. entry_key p \<notin> insert ?k ck"
  proof
    fix q
    assume q: "q \<in> set ps"
    then have "entry_key q \<notin> ck" using rest by simp
    moreover have "entry_key q \<noteq> ?k" using notin q by (metis imageI)
    ultimately show "entry_key q \<notin> insert ?k ck" by simp
  qed
  show ?case
    using fresh Cons.IH [OF dist rest'] Cons.IH [OF dist rest]
    by (simp add: p iou_eq nominated_Cons conflict_def)
qed

lemma line_bboxes_distinct:
  "line_bboxes ls d = Inr d' \<Longrightarrow> distinct (map fst d) \<Longrightarrow> distinct (map fst d')"
  by (induction ls arbitrary: d) (auto split: if_splits sum.splits intro: distinct_update)

lemma detect_duplicates_nominated:
  assumes "detect_duplicates_to_delete lines = Inr out"
  shows "\<exists>d. line_bboxes lines [] = Inr d \<and> distinct (map fst d) \<and>
           out = nominated (combinations2 d)"
proof -
  from assms obtain d where d: "line_bboxes lines [] = Inr d"
    and loop: "duplicates_loop (combinations2 d) {} {} = Inr out"
    by (auto simp: detect_duplicates_to_delete_def split: sum.splits)
  have dist: "distinct (map fst d)"
    using line_bboxes_distinct [OF d] by simp
  have "duplicates_loop (combinations2 d) {} {} = Inr ({} \<union> nominated (combinations2 d))"
    by (rule duplicates_loop_nominated) (simp_all add: combinations2_keys_distinct dist)
  with loop have "out = nominated (combinations2 d)" by simp
  with d dist show ?thesis by blast
qed

lemma update_fresh: "k \<notin> fst ` set d \<Longrightarrow> AList.update k v d = d @ [(k, v)]"
  by (induction d) auto

lemma collect_Inr_all2: "collect f xs = Inr ys \<Longrightarrow> list_all2 (\<lambda>x y. f x = Inr y) xs ys"
  by (induction xs arbitrary: ys) (auto split: sum.splits)

lemma line_bboxes_collect:
  "distinct (map pk (masked ls)) \<Longrightarrow> pk ` set (masked ls) \<inter> fst ` set d = {} \<Longrightarrow>
   line_bboxes ls d =
     (case collect line_entry (masked ls) of Inl e \<Rightarrow> Inl e | Inr es \<Rightarrow> Inr (d @ es))"
proof (induction ls arbitrary: d)
  case Nil
  show ?case by (simp add: masked_def)
next
  case (Cons l ls)
  show ?case
  proof (cases "truthy (mask l)")
    case False
    then have m: "masked (l # ls) = masked ls" by (simp add: masked_def)
    show ?thesis
      using Cons.IH [of d] Cons.prems False by (simp add: m)
  next
    case True
    then have m: "masked (l # ls) = l # masked ls" by (simp add: masked_def)
    from Cons.prems have fresh: "pk l \<notin> fst ` set d" and notin: "pk l \<notin> pk ` set (masked ls)"
      and dist: "distinct (map pk (masked ls))" and disj: "pk ` set (masked ls) \<inter> fst ` set d = {}"
      by (auto simp: m)
    show ?thesis
    proof (cases "extract_field (mask l)")
      case (Inl e)
      then show ?thesis using True by (simp add: m line_entry_def)
    next
      case (Inr b)
      have disj': "pk ` set (masked ls) \<inter> fst ` set (d @ [(pk l, b)]) = {}"
        using disj notin by auto
      have "line_bboxes (l # ls) d = line_bboxes ls (d @ [(pk l, b)])"
        using True Inr fresh by (simp add: update_fresh)
      also have "\<dots> = (case collect line_entry (masked ls) of
                         Inl e \<Rightarrow> Inl e | Inr es \<Rightarrow> Inr ((d @ [(pk l, b)]) @ es))"
        by (rule Cons.IH [OF dist disj'])
      also have "\<dots> = (case collect line_entry (masked (l # ls)) of
                         Inl e \<Rightarrow> Inl e | Inr es \<Rightarrow> Inr (d @ es))"
        using Inr by (simp add: m line_entry_def split: sum.splits)
      finally show ?thesis .
    qed
  qed
qed

lemma line_bboxes_keys:
  "line_bboxes ls d = Inr d' \<Longrightarrow> fst ` set d' = fst ` set d \<union> pk ` set (masked ls)"
proof (induction ls arbitrary: d)
  case Nil
  then show ?case by (simp add: masked_def)
next
  case (Cons l ls)
  show ?case
  proof (cases "truthy (mask l)")
    case False
    then show ?thesis using Cons by (simp add: masked_def)
  next
    case True
    with Cons.prems obtain b where b: "extract_field (mask l) = Inr b"
      and rest: "line_bboxes ls (AList.update (pk l) b d) = Inr d'"
      by (auto split: sum.splits)
    have "fst ` set d' = fst ` set (AList.update (pk l) b d) \<union> pk ` set (masked ls)"
      using Cons.IH [OF rest] .
    then show ?thesis
      using True by (simp add: masked_def dom_update)
  qed
qed

text \<open>The result over the positions of the dictionary.\<close>

lemma nominated_by_index:
  "nominated (combinations2 d) =
     {(if fst (snd (d ! i)) < fst (snd (d ! j)) then fst (d ! i) else fst (d ! j)) | i j.
        i < j \<and> j < length d \<and> 1 / 2 < iou_value (snd (d ! i)) (snd (d ! j))}"
  (is "?L = ?R")
proof (rule set_eqI, rule iffI)
  fix k
  assume "k \<in> ?L"
  then obtain p where p: "p \<in> set (combinations2 d)" and c: "conflict (fst p) (snd p)"
    and k: "k = delete_id (fst p) (snd p)"
    unfolding nominated_def by blast
  from p obtain i j where "p = (d ! i, d ! j)" "i < j" "j < length d"
    unfolding combinations2_nth by blast
  with c k show "k \<in> ?R"
    unfolding conflict_def delete_id_def by auto
next
  fix k
  assume "k \<in> ?R"
  then obtain i j where ij: "i < j" "j < length d"
    and c: "1 / 2 < iou_value (snd (d ! i)) (snd (d ! j))"
    and k: "k = (if fst (snd (d ! i)) < fst (snd (d ! j)) then fst (d ! i) else fst (d ! j))"
    by blast
  have "(d ! i, d ! j) \<in> set (combinations2 d)"
    unfolding combinations2_nth using ij by blast
  moreover have "conflict (fst (d ! i, d ! j)) (snd (d ! i, d ! j))"
    using c by (simp add: conflict_def)
  moreover have "k = delete_id (fst (d ! i, d ! j)) (snd (d ! i, d ! j))"
    using k by (simp add: delete_id_def)
  ultimately show "k \<in> ?L"
    unfolding nominated_def by blast
qed

text \<open>The first entry among those of greatest \<open>x_min\<close> is never nominated.\<close>

lemma first_greatest_exists:
  fixes f :: "'a \<Rightarrow> int"
  assumes "xs \<noteq> []"
  shows "\<exists>m < length xs. (\<forall>j < length xs. f (xs ! j) \<le> f (xs ! m)) \<and>
           (\<forall>j < m. f (xs ! j) < f (xs ! m))"
proof -
  let ?M = "Max (f ` set xs)"
  have fin: "finite (f ` set xs)" and ne: "f ` set xs \<noteq> {}"
    using assms by simp_all
  have "?M \<in> f ` set xs" using fin ne by (rule Max_in)
  then obtain i where i: "i < length xs" "f (xs ! i) = ?M"
    by (auto simp: in_set_conv_nth)
  define m where "m = (LEAST i. i < length xs \<and> f (xs ! i) = ?M)"
  have m: "m < length xs \<and> f (xs ! m) = ?M"
    unfolding m_def by (rule LeastI [of "\<lambda>i. i < length xs \<and> f (xs ! i) = ?M" i]) (simp add: i)
  have le: "f (xs ! j) \<le> ?M" if "j < length xs" for j
    using that fin by (intro Max_ge) auto
  have "f (xs ! j) < f (xs ! m)" if "j < m" for j
  proof -
    have j: "j < length xs" using that m by simp
    have "\<not> (j < length xs \<and> f (xs ! j) = ?M)"
      using that unfolding m_def by (rule not_less_Least)
    with j have "f (xs ! j) \<noteq> ?M" by simp
    with le [OF j] have "f (xs ! j) < ?M" by linarith
    with m show ?thesis by simp
  qed
  with m le show ?thesis by auto
qed

lemma first_greatest_not_nominated:
  assumes dist: "distinct (map fst d)"
    and m: "m < length d"
    and ge: "\<forall>j < length d. fst (snd (d ! j)) \<le> fst (snd (d ! m))"
    and first: "\<forall>j < m. fst (snd (d ! j)) < fst (snd (d ! m))"
  shows "fst (d ! m) \<notin> nominated (combinations2 d)"
proof
  assume "fst (d ! m) \<in> nominated (combinations2 d)"
  then obtain i j where ij: "i < j" "j < length d"
    and k: "fst (d ! m) = (if fst (snd (d ! i)) < fst (snd (d ! j)) then fst (d ! i) else fst (d ! j))"
    unfolding nominated_by_index by blast
  have inj: "a = b" if "fst (d ! a) = fst (d ! b)" "a < length d" "b < length d" for a b
    using that dist by (metis distinct_conv_nth length_map nth_map)
  show False
  proof (cases "fst (snd (d ! i)) < fst (snd (d ! j))")
    case True
    with k have "m = i" using inj m ij by simp
    with True ge ij show False by force
  next
    case False
    with k have "m = j" using inj m ij by simp
    with False first ij show False by force
  qed
qed

lemma line_entry_Inr:
  assumes "line_entry l = Inr e"
  shows "fst e = pk l" and "extract_field (mask l) = Inr (snd e)"
proof -
  obtain b where b: "extract_field (mask l) = Inr b" and e: "e = (pk l, b)"
    using assms by (cases "extract_field (mask l)") (auto simp: line_entry_def)
  show "fst e = pk l" by (simp add: e)
  show "extract_field (mask l) = Inr (snd e)" by (simp add: b e)
qed

lemma line_bboxes_entries:
  assumes dist: "distinct (map pk (masked lines))"
    and d: "line_bboxes lines [] = Inr d"
  shows "length d = length (masked lines)"
    and "\<And>i. i < length d \<Longrightarrow> fst (d ! i) = pk (masked lines ! i)"
    and "\<And>i. i < length d \<Longrightarrow> extract_field (mask (masked lines ! i)) = Inr (snd (d ! i))"
proof -
  have "line_bboxes lines [] =
      (case collect line_entry (masked lines) of Inl e \<Rightarrow> Inl e | Inr es \<Rightarrow> Inr ([] @ es))"
    by (rule line_bboxes_collect) (simp_all add: dist)
  with d have "collect line_entry (masked lines) = Inr d"
    by (simp split: sum.splits)
  then have all2: "list_all2 (\<lambda>l e. line_entry l = Inr e) (masked lines) d"
    by (rule collect_Inr_all2)
  then show len: "length d = length (masked lines)"
    by (simp add: list_all2_lengthD)
  have entry: "line_entry (masked lines ! i) = Inr (d ! i)" if "i < length d" for i
    using list_all2_nthD2 [OF all2 that] .
  show "fst (d ! i) = pk (masked lines ! i)" if "i < length d" for i
    using entry [OF that] by (rule line_entry_Inr)
  show "extract_field (mask (masked lines ! i)) = Inr (snd (d ! i))" if "i < length d" for i
    using entry [OF that] by (rule line_entry_Inr)
qed

lemma detect_duplicates_by_index:
  assumes dist: "distinct (map pk (masked lines))"
    and res: "detect_duplicates_to_delete lines = Inr out"
  obtains bs where "length bs = length (masked lines)"
    and "\<And>i. i < length bs \<Longrightarrow> extract_field (mask (masked lines ! i)) = Inr (bs ! i)"
    and "out = {(if fst (bs ! i) < fst (bs ! j) then pk (masked lines ! i) else pk (masked lines ! j)) | i j.
                 i < j \<and> j < length bs \<and> 1 / 2 < iou_value (bs ! i) (bs ! j)}"
proof -
  from res obtain d where d: "line_bboxes lines [] = Inr d"
    and out: "out = nominated (combinations2 d)"
    using detect_duplicates_nominated by blast
  note e = line_bboxes_entries [OF dist d]
  let ?bs = "map snd d"
  let ?R = "{(if fst (?bs ! i) < fst (?bs ! j) then pk (masked lines ! i) else pk (masked lines ! j)) | i j.
                 i < j \<and> j < length ?bs \<and> 1 / 2 < iou_value (?bs ! i) (?bs ! j)}"
  have "out = ?R"
  proof (rule set_eqI, rule iffI)
    fix k
    assume "k \<in> out"
    then obtain i j where ij: "i < j" "j < length d"
      and c: "1 / 2 < iou_value (snd (d ! i)) (snd (d ! j))"
      and k: "k = (if fst (snd (d ! i)) < fst (snd (d ! j)) then fst (d ! i) else fst (d ! j))"
      unfolding out nominated_by_index by blast
    from ij have i: "i < length d" by simp
    have "k = (if fst (?bs ! i) < fst (?bs ! j) then pk (masked lines ! i) else pk (masked lines ! j))"
      using k e(2) [OF i] e(2) [OF ij(2)] i ij by simp
    moreover have "1 / 2 < iou_value (?bs ! i) (?bs ! j)"
      using c i ij by simp
    moreover have "j < length ?bs" using ij by simp
    ultimately show "k \<in> ?R" using ij(1) by blast
  next
    fix k
    assume "k \<in> ?R"
    then obtain i j where ij: "i < j" "j < length ?bs"
      and c: "1 / 2 < iou_value (?bs ! i) (?bs ! j)"
      and k: "k = (if fst (?bs ! i) < fst (?bs ! j) then pk (masked lines ! i) else pk (masked lines ! j))"
      by blast
    from ij have j: "j < length d" and i: "i < length d" by simp_all
    have "k = (if fst (snd (d ! i)) < fst (snd (d ! j)) then fst (d ! i) else fst (d ! j))"
      using k e(2) [OF i] e(2) [OF j] i j by simp
    moreover have "1 / 2 < iou_value (snd (d ! i)) (snd (d ! j))"
      using c i j by simp
    ultimately show "k \<in> out"
      unfolding out nominated_by_index using ij(1) j by blast
  qed
  moreover have "length ?bs = length (masked lines)" using e(1) by simp
  moreover have "extract_field (mask (masked lines ! i)) = Inr (?bs ! i)" if "i < length ?bs" for i
    using e(3) [of i] that by simp
  ultimately show thesis using that by blast
qed


text \<open>
  C1, amended. When the result holds both identifiers of a conflicting pair, the
  member that this pair keeps (the one with the greater \<open>x_min\<close>, the first enumerated
  on a tie) conflicts with a third line whose \<open>x_min\<close> is at least its own. So a
  conflicting pair whose kept member has no such third line never has both of its
  identifiers in the result.
\<close>

theorem both_deleted_needs_third_conflict:
  assumes dist: "distinct (map pk (masked lines))"
    and res: "detect_duplicates_to_delete lines = Inr out"
    and pair: "(l1, l2) \<in> set (combinations2 (masked lines))"
    and b1: "extract_field (mask l1) = Inr b1"
    and b2: "extract_field (mask l2) = Inr b2"
    and s: "iou b1 b2 = Inr s" "1 / 2 < s"
    and both: "pk l1 \<in> out" "pk l2 \<in> out"
  shows "\<exists>l3 b3 s'. l3 \<in> set (masked lines) \<and> pk l3 \<noteq> pk l1 \<and> pk l3 \<noteq> pk l2 \<and>
           extract_field (mask l3) = Inr b3 \<and>
           iou (if fst b1 < fst b2 then b2 else b1) b3 = Inr s' \<and> 1 / 2 < s' \<and>
           fst (if fst b1 < fst b2 then b2 else b1) \<le> fst b3"
proof (rule detect_duplicates_by_index [OF dist res])
  let ?ls = "masked lines"
  fix bs
  assume len: "length bs = length ?ls"
    and ex: "\<And>i. i < length bs \<Longrightarrow> extract_field (mask (?ls ! i)) = Inr (bs ! i)"
    and out: "out = {(if fst (bs ! i) < fst (bs ! j) then pk (?ls ! i) else pk (?ls ! j)) | i j.
                 i < j \<and> j < length bs \<and> 1 / 2 < iou_value (bs ! i) (bs ! j)}"
  have inj: "a = b" if "pk (?ls ! a) = pk (?ls ! b)" "a < length bs" "b < length bs" for a b
    using that dist len by (metis distinct_conv_nth length_map nth_map)
  from pair obtain i j where l: "l1 = ?ls ! i" "l2 = ?ls ! j" and ij: "i < j" "j < length ?ls"
    unfolding combinations2_nth by blast
  from ij len have i: "i < length bs" and j: "j < length bs" by simp_all
  have bi: "b1 = bs ! i" and bj: "b2 = bs ! j"
    using b1 b2 ex [OF i] ex [OF j] l by simp_all
  define v where "v = (if fst b1 < fst b2 then j else i)"
  have v: "v < length bs" and vij: "v = i \<or> v = j"
    and bv: "bs ! v = (if fst b1 < fst b2 then b2 else b1)"
    using i j by (simp_all add: v_def bi bj)
  have "pk (?ls ! v) \<in> out"
    using both l by (simp add: v_def)
  then obtain p q where pq: "p < q" "q < length bs"
    and c: "1 / 2 < iou_value (bs ! p) (bs ! q)"
    and k: "pk (?ls ! v) = (if fst (bs ! p) < fst (bs ! q) then pk (?ls ! p) else pk (?ls ! q))"
    unfolding out by blast
  from pq have p: "p < length bs" by simp
  define w where "w = (if fst (bs ! p) < fst (bs ! q) then q else p)"
  have vn: "v = (if fst (bs ! p) < fst (bs ! q) then p else q)"
    using k inj [of v p] inj [of v q] v p pq by (simp split: if_splits)
  have w: "w < length bs" using p pq by (simp add: w_def)
  have wi: "w \<noteq> i" and wj: "w \<noteq> j"
    using vn vij pq ij unfolding w_def v_def bi bj by (auto split: if_splits)
  have le: "fst (bs ! v) \<le> fst (bs ! w)"
    unfolding vn w_def by simp
  have cvo: "1 / 2 < iou_value (bs ! v) (bs ! w)"
    using c unfolding vn w_def by (simp add: iou_value_commute)
  have "?ls ! w \<in> set ?ls" using w len by simp
  moreover have "pk (?ls ! w) \<noteq> pk l1" "pk (?ls ! w) \<noteq> pk l2"
    using inj [of w i] inj [of w j] w i j wi wj l by auto
  moreover have "extract_field (mask (?ls ! w)) = Inr (bs ! w)" using ex [OF w] .
  moreover have "iou (if fst b1 < fst b2 then b2 else b1) (bs ! w) = Inr (iou_value (bs ! v) (bs ! w))"
    using bv by (simp add: iou_eq)
  moreover have "fst (if fst b1 < fst b2 then b2 else b1) \<le> fst (bs ! w)"
    using le bv by simp
  ultimately show ?thesis using cvo by blast
qed

text \<open>
  C9. When some line has a non-empty mask, the result is a strict subset of the
  identifiers of the lines with a non-empty mask; and, identifiers being distinct, the
  first-enumerated line among those of greatest \<open>x_min\<close> is not in the result.
\<close>

theorem first_greatest_line_survives:
  assumes res: "detect_duplicates_to_delete lines = Inr out"
    and ne: "masked lines \<noteq> []"
  shows "out \<subset> pk ` set (masked lines) \<and>
     (distinct (map pk (masked lines)) \<longrightarrow>
        (\<forall>m b. m < length (masked lines) \<and> extract_field (mask (masked lines ! m)) = Inr b \<and>
           (\<forall>j b'. j < length (masked lines) \<and> extract_field (mask (masked lines ! j)) = Inr b' \<longrightarrow>
                fst b' \<le> fst b \<and> (j < m \<longrightarrow> fst b' < fst b)) \<longrightarrow>
           pk (masked lines ! m) \<notin> out))"
proof (intro conjI impI allI)
  let ?ls = "masked lines"
  from res obtain d where d: "line_bboxes lines [] = Inr d" and dist: "distinct (map fst d)"
    and out: "out = nominated (combinations2 d)"
    using detect_duplicates_nominated by blast
  have keys: "fst ` set d = pk ` set ?ls"
    using line_bboxes_keys [OF d] by simp
  with ne have dne: "d \<noteq> []" by auto
  have sub: "out \<subseteq> fst ` set d"
  proof
    fix k
    assume "k \<in> out"
    then obtain i j where "i < j" "j < length d"
      "k = (if fst (snd (d ! i)) < fst (snd (d ! j)) then fst (d ! i) else fst (d ! j))"
      unfolding out nominated_by_index by blast
    then have "k = fst (d ! i) \<or> k = fst (d ! j)" "i < length d" "j < length d"
      by (simp_all split: if_splits)
    then show "k \<in> fst ` set d"
      by (metis imageI nth_mem)
  qed
  obtain m where m: "m < length d"
    and ge: "\<forall>j < length d. fst (snd (d ! j)) \<le> fst (snd (d ! m))"
    and first: "\<forall>j < m. fst (snd (d ! j)) < fst (snd (d ! m))"
    using first_greatest_exists [OF dne, of "\<lambda>e. fst (snd e)"] by blast
  have "fst (d ! m) \<notin> out"
    unfolding out using dist m ge first by (rule first_greatest_not_nominated)
  moreover have "fst (d ! m) \<in> fst ` set d" using m by simp
  ultimately show "out \<subset> pk ` set ?ls"
    using sub keys by blast
next
  let ?ls = "masked lines"
  fix m b
  assume distl: "distinct (map pk ?ls)"
    and h: "m < length ?ls \<and> extract_field (mask (?ls ! m)) = Inr b \<and>
           (\<forall>j b'. j < length ?ls \<and> extract_field (mask (?ls ! j)) = Inr b' \<longrightarrow>
                fst b' \<le> fst b \<and> (j < m \<longrightarrow> fst b' < fst b))"
  from res obtain d where d: "line_bboxes lines [] = Inr d" and dist: "distinct (map fst d)"
    and out: "out = nominated (combinations2 d)"
    using detect_duplicates_nominated by blast
  note e = line_bboxes_entries [OF distl d]
  from h e(1) have m: "m < length d" by simp
  have bm: "snd (d ! m) = b" using e(3) [OF m] h by simp
  from h have hj: "fst b' \<le> fst b \<and> (j < m \<longrightarrow> fst b' < fst b)"
    if "j < length ?ls" "extract_field (mask (?ls ! j)) = Inr b'" for j b'
    using that by blast
  have all: "fst (snd (d ! j)) \<le> fst b \<and> (j < m \<longrightarrow> fst (snd (d ! j)) < fst b)"
    if "j < length d" for j
  proof (rule hj)
    show "j < length ?ls" using that e(1) by simp
    show "extract_field (mask (?ls ! j)) = Inr (snd (d ! j))" using e(3) [OF that] .
  qed
  have "fst (d ! m) \<notin> nominated (combinations2 d)"
    using dist m
  proof (rule first_greatest_not_nominated)
    show "\<forall>j < length d. fst (snd (d ! j)) \<le> fst (snd (d ! m))"
      using all bm by simp
    show "\<forall>j < m. fst (snd (d ! j)) < fst (snd (d ! m))"
      using all bm m by simp
  qed
  then show "pk (?ls ! m) \<notin> out"
    using e(2) [OF m] out by simp
qed




text \<open>Unfolding the engine on concrete lines.\<close>

lemmas eval_duplicates =
  detect_duplicates_to_delete_def num_line_def masked_def pair_key_def delete_id_def
  truediv_def Let_def


text \<open>
  C1, as stated, fails: three lines of which every two conflict. The first loses to the
  second and to the third, the second loses to the third, so the result holds both
  members of the conflicting pair made of the first and the second line.
\<close>

theorem conflicting_pair_both_deleted:
  "detect_duplicates_to_delete
     [num_line 1 [(0, 0), (10, 10)], num_line 2 [(1, 0), (11, 10)], num_line 3 [(2, 0), (12, 10)]]
     = Inr {1, 2} \<and>
   extract_field (mask (num_line 1 [(0, 0), (10, 10)])) = Inr (0, 0, 10, 10) \<and>
   extract_field (mask (num_line 2 [(1, 0), (11, 10)])) = Inr (1, 0, 11, 10) \<and>
   iou (0, 0, 10, 10) (1, 0, 11, 10) = Inr (9 / 11) \<and> (1 / 2 :: rat) < 9 / 11 \<and>
   pk (num_line 1 [(0, 0), (10, 10)]) \<in> {1, 2 :: int} \<and>
   pk (num_line 2 [(1, 0), (11, 10)]) \<in> {1, 2 :: int}"
  by (simp add: eval_duplicates insert_commute)

theorem both_deleted_needs_third_conflict_witness:
  "distinct (map pk (masked
     [num_line 1 [(0, 0), (10, 10)], num_line 2 [(1, 0), (11, 10)], num_line 3 [(2, 0), (12, 10)]])) \<and>
   detect_duplicates_to_delete
     [num_line 1 [(0, 0), (10, 10)], num_line 2 [(1, 0), (11, 10)], num_line 3 [(2, 0), (12, 10)]]
     = Inr {1, 2} \<and>
   (\<exists>l3 b3 s'. l3 \<in> set (masked
       [num_line 1 [(0, 0), (10, 10)], num_line 2 [(1, 0), (11, 10)], num_line 3 [(2, 0), (12, 10)]]) \<and>
      pk l3 \<noteq> 1 \<and> pk l3 \<noteq> 2 \<and> extract_field (mask l3) = Inr b3 \<and>
      iou (1, 0, 11, 10) b3 = Inr s' \<and> 1 / 2 < s' \<and> 1 \<le> fst b3)"
proof -
  let ?A = "num_line 1 [(0, 0), (10, 10)]"
  let ?B = "num_line 2 [(1, 0), (11, 10)]"
  let ?L = "[?A, ?B, num_line 3 [(2, 0), (12, 10)]]"
  have h1: "distinct (map pk (masked ?L))"
    by (simp add: eval_duplicates)
  have h2: "detect_duplicates_to_delete ?L = Inr {1, 2}"
    by (simp add: eval_duplicates insert_commute)
  have h3: "(?A, ?B) \<in> set (combinations2 (masked ?L))"
    by (simp add: eval_duplicates)
  have h4: "extract_field (mask ?A) = Inr (0, 0, 10, 10)"
    by (simp add: eval_duplicates)
  have h5: "extract_field (mask ?B) = Inr (1, 0, 11, 10)"
    by (simp add: eval_duplicates)
  have h6: "iou (0, 0, 10, 10) (1, 0, 11, 10) = Inr (9 / 11)"
    by (simp add: eval_duplicates)
  have h7: "(1 / 2 :: rat) < 9 / 11" by simp
  have h8: "pk ?A \<in> {1, 2 :: int}" "pk ?B \<in> {1, 2 :: int}"
    by (simp_all add: num_line_def)
  have pks: "pk ?A = 1" "pk ?B = 2" by (simp_all add: num_line_def)
  from both_deleted_needs_third_conflict [OF h1 h2 h3 h4 h5 h6 h7 h8]
  have "\<exists>l3 b3 s'. l3 \<in> set (masked ?L) \<and>
      pk l3 \<noteq> 1 \<and> pk l3 \<noteq> 2 \<and> extract_field (mask l3) = Inr b3 \<and>
      iou (1, 0, 11, 10) b3 = Inr s' \<and> 1 / 2 < s' \<and> 1 \<le> fst b3"
    by (simp add: pks)
  with h1 h2 show ?thesis by (intro conjI)
qed

theorem first_greatest_line_survives_witness:
  "detect_duplicates_to_delete
     [num_line 1 [(0, 0), (10, 10)], num_line 2 [(1, 0), (11, 10)], num_line 3 [(2, 0), (12, 10)]]
     = Inr {1, 2} \<and>
   masked [num_line 1 [(0, 0), (10, 10)], num_line 2 [(1, 0), (11, 10)], num_line 3 [(2, 0), (12, 10)]]
     \<noteq> [] \<and>
   {1, 2} \<subset> pk ` set (masked
     [num_line 1 [(0, 0), (10, 10)], num_line 2 [(1, 0), (11, 10)], num_line 3 [(2, 0), (12, 10)]]) \<and>
   pk (masked
     [num_line 1 [(0, 0), (10, 10)], num_line 2 [(1, 0), (11, 10)], num_line 3 [(2, 0), (12, 10)]] ! 2)
     \<notin> {1, 2 :: int}"
proof -
  let ?L = "[num_line 1 [(0, 0), (10, 10)], num_line 2 [(1, 0), (11, 10)], num_line 3 [(2, 0), (12, 10)]]"
  have h1: "detect_duplicates_to_delete ?L = Inr {1, 2}"
    by (simp add: eval_duplicates insert_commute)
  have h2: "masked ?L \<noteq> []"
    by (simp add: eval_duplicates)
  have h3: "pk (masked ?L ! 2) \<notin> {1, 2 :: int}"
    by (simp add: eval_duplicates)
  from first_greatest_line_survives [OF h1 h2] have "{1, 2} \<subset> pk ` set (masked ?L)"
    by (rule conjunct1)
  with h1 h2 h3 show ?thesis by (intro conjI)
qed

section \<open>Region assignment\<close>

lemma rel_eq: "rel_intersection A B = Inr (rel_value A B)"
  by (cases A) (simp add: rel_intersection_closed_form rel_value_def)

lemma best_region_Nil: "best_region [] m bi bv = Inr (bi, bv)"
  by simp

lemma best_region_error:
  "extract_field m = Inl e \<Longrightarrow> rb \<noteq> [] \<Longrightarrow> best_region rb m bi bv = Inl e"
  by (cases rb) auto

text \<open>
  The inner loop, for a mask that has a bounding box: it returns the accumulators when
  no overlap exceeds \<open>bv\<close>, and otherwise the first position of greatest overlap.
\<close>

lemma best_region_scan:
  assumes m: "extract_field m = Inr lb" and bv: "0 \<le> bv"
  shows "\<exists>ri rv. best_region rb m bi bv = Inr (ri, rv) \<and>
     (if \<forall>j < length rb. rel_value lb (snd (rb ! j)) \<le> bv then ri = bi \<and> rv = bv
      else \<exists>k < length rb. ri = fst (rb ! k) \<and> rv = rel_value lb (snd (rb ! k)) \<and> bv < rv \<and>
             (\<forall>j < length rb. rel_value lb (snd (rb ! j)) \<le> rv) \<and>
             (\<forall>j < k. rel_value lb (snd (rb ! j)) < rv))"
  using bv
proof (induction rb arbitrary: bi bv)
  case Nil
  show ?case by simp
next
  case (Cons e rest)
  obtain idx zone where e: "e = (idx, zone)" by (cases e)
  let ?cur = "rel_value lb zone"
  let ?ov = "\<lambda>j. rel_value lb (snd ((e # rest) ! j))"
  have ov0: "?ov 0 = ?cur" by (simp add: e)
  have ovS: "?ov (Suc j) = rel_value lb (snd (rest ! j))" for j by simp
  show ?case
  proof (cases "bv < ?cur")
    case True
    then have cur0: "0 \<le> ?cur" using Cons.prems by simp
    have step: "best_region (e # rest) m bi bv = best_region rest m idx ?cur"
      using True Cons.prems m by (simp add: e rel_eq)
    from Cons.IH [OF cur0, of idx] obtain ri rv where
      r: "best_region rest m idx ?cur = Inr (ri, rv)"
      and c: "if \<forall>j < length rest. rel_value lb (snd (rest ! j)) \<le> ?cur then ri = idx \<and> rv = ?cur
        else \<exists>k < length rest. ri = fst (rest ! k) \<and> rv = rel_value lb (snd (rest ! k)) \<and> ?cur < rv \<and>
             (\<forall>j < length rest. rel_value lb (snd (rest ! j)) \<le> rv) \<and>
             (\<forall>j < k. rel_value lb (snd (rest ! j)) < rv)"
      by blast
    have notall: "\<not> (\<forall>j < length (e # rest). ?ov j \<le> bv)"
      using True ov0 by (metis length_greater_0_conv list.distinct(1) not_le)
    have "\<exists>k < length (e # rest). ri = fst ((e # rest) ! k) \<and> rv = ?ov k \<and> bv < rv \<and>
             (\<forall>j < length (e # rest). ?ov j \<le> rv) \<and> (\<forall>j < k. ?ov j < rv)"
    proof (cases "\<forall>j < length rest. rel_value lb (snd (rest ! j)) \<le> ?cur")
      case all: True
      with c have ri: "ri = idx" "rv = ?cur" by simp_all
      have "\<forall>j < length (e # rest). ?ov j \<le> rv"
      proof (intro allI impI)
        fix j assume "j < length (e # rest)"
        then show "?ov j \<le> rv"
          using all ri by (cases j) (simp_all add: e)
      qed
      then have "0 < length (e # rest) \<and> ri = fst ((e # rest) ! 0) \<and> rv = ?ov 0 \<and> bv < rv \<and>
             (\<forall>j < length (e # rest). ?ov j \<le> rv) \<and> (\<forall>j < 0. ?ov j < rv)"
        using ri True by (simp add: e)
      then show ?thesis by blast
    next
      case False
      with c obtain k where k: "k < length rest" "ri = fst (rest ! k)"
        "rv = rel_value lb (snd (rest ! k))" "?cur < rv"
        "\<forall>j < length rest. rel_value lb (snd (rest ! j)) \<le> rv"
        "\<forall>j < k. rel_value lb (snd (rest ! j)) < rv"
        by auto
      have a: "\<forall>j < length (e # rest). ?ov j \<le> rv"
      proof (intro allI impI)
        fix j assume "j < length (e # rest)"
        then show "?ov j \<le> rv"
          using k(4,5) by (cases j) (simp_all add: e)
      qed
      have b: "\<forall>j < Suc k. ?ov j < rv"
      proof (intro allI impI)
        fix j assume "j < Suc k"
        then show "?ov j < rv"
          using k(4,6) by (cases j) (simp_all add: e)
      qed
      have "Suc k < length (e # rest) \<and> ri = fst ((e # rest) ! Suc k) \<and> rv = ?ov (Suc k) \<and> bv < rv"
        using k True by simp
      with a b show ?thesis by blast
    qed
    then have "if \<forall>j < length (e # rest). ?ov j \<le> bv then ri = bi \<and> rv = bv
      else \<exists>k < length (e # rest). ri = fst ((e # rest) ! k) \<and> rv = ?ov k \<and> bv < rv \<and>
             (\<forall>j < length (e # rest). ?ov j \<le> rv) \<and> (\<forall>j < k. ?ov j < rv)"
      by (simp only: notall if_False)
    moreover have "best_region (e # rest) m bi bv = Inr (ri, rv)"
      using r step by simp
    ultimately show ?thesis by blast
  next
    case False
    then have le: "?cur \<le> bv" by simp
    have step: "best_region (e # rest) m bi bv = best_region rest m bi bv"
      using False m by (simp add: e rel_eq)
    from Cons.IH [OF Cons.prems, of bi] obtain ri rv where
      r: "best_region rest m bi bv = Inr (ri, rv)"
      and c: "if \<forall>j < length rest. rel_value lb (snd (rest ! j)) \<le> bv then ri = bi \<and> rv = bv
        else \<exists>k < length rest. ri = fst (rest ! k) \<and> rv = rel_value lb (snd (rest ! k)) \<and> bv < rv \<and>
             (\<forall>j < length rest. rel_value lb (snd (rest ! j)) \<le> rv) \<and>
             (\<forall>j < k. rel_value lb (snd (rest ! j)) < rv)"
      by blast
    show ?thesis
    proof (cases "\<forall>j < length rest. rel_value lb (snd (rest ! j)) \<le> bv")
      case all: True
      with c have ri: "ri = bi" "rv = bv" by simp_all
      have allb: "\<forall>j < length (e # rest). ?ov j \<le> bv"
      proof (intro allI impI)
        fix j assume "j < length (e # rest)"
        then show "?ov j \<le> bv"
          using all le by (cases j) (simp_all add: e)
      qed
      have "if \<forall>j < length (e # rest). ?ov j \<le> bv then ri = bi \<and> rv = bv
        else \<exists>k < length (e # rest). ri = fst ((e # rest) ! k) \<and> rv = ?ov k \<and> bv < rv \<and>
             (\<forall>j < length (e # rest). ?ov j \<le> rv) \<and> (\<forall>j < k. ?ov j < rv)"
        by (subst if_P [OF allb]) (simp add: ri)
      moreover have "best_region (e # rest) m bi bv = Inr (ri, rv)"
        using r step by simp
      ultimately show ?thesis by blast
    next
      case nall: False
      with c obtain k where k: "k < length rest" "ri = fst (rest ! k)"
        "rv = rel_value lb (snd (rest ! k))" "bv < rv"
        "\<forall>j < length rest. rel_value lb (snd (rest ! j)) \<le> rv"
        "\<forall>j < k. rel_value lb (snd (rest ! j)) < rv"
        by auto
      have notall: "\<not> (\<forall>j < length (e # rest). ?ov j \<le> bv)"
      proof
        assume h: "\<forall>j < length (e # rest). ?ov j \<le> bv"
        have "\<forall>j < length rest. rel_value lb (snd (rest ! j)) \<le> bv"
        proof (intro allI impI)
          fix j assume "j < length rest"
          then have "?ov (Suc j) \<le> bv" using h by (metis Suc_less_eq length_Cons)
          then show "rel_value lb (snd (rest ! j)) \<le> bv" by simp
        qed
        with nall show False by simp
      qed
      have a: "\<forall>j < length (e # rest). ?ov j \<le> rv"
      proof (intro allI impI)
        fix j assume "j < length (e # rest)"
        then show "?ov j \<le> rv"
          using k(4,5) le by (cases j) (simp_all add: e)
      qed
      have b: "\<forall>j < Suc k. ?ov j < rv"
      proof (intro allI impI)
        fix j assume "j < Suc k"
        then show "?ov j < rv"
          using k(4,6) le by (cases j) (simp_all add: e)
      qed
      have "Suc k < length (e # rest) \<and> ri = fst ((e # rest) ! Suc k) \<and> rv = ?ov (Suc k) \<and> bv < rv"
        using k by simp
      with a b have "\<exists>k < length (e # rest). ri = fst ((e # rest) ! k) \<and> rv = ?ov k \<and> bv < rv \<and>
             (\<forall>j < length (e # rest). ?ov j \<le> rv) \<and> (\<forall>j < k. ?ov j < rv)"
        by blast
      then have "if \<forall>j < length (e # rest). ?ov j \<le> bv then ri = bi \<and> rv = bv
        else \<exists>k < length (e # rest). ri = fst ((e # rest) ! k) \<and> rv = ?ov k \<and> bv < rv \<and>
             (\<forall>j < length (e # rest). ?ov j \<le> rv) \<and> (\<forall>j < k. ?ov j < rv)"
        by (simp only: notall if_False)
      moreover have "best_region (e # rest) m bi bv = Inr (ri, rv)"
        using r step by simp
      ultimately show ?thesis by blast
    qed
  qed
qed

lemma reassign_loop_frame:
  "reassign_loop rb as h acc = Inr (h', out) \<Longrightarrow>
   \<exists>new. out = acc @ new \<and> set new \<subseteq> set as \<and> (\<forall>a. a \<notin> set new \<longrightarrow> h' a = h a) \<and>
     (\<forall>a \<in> set new. \<exists>b v. best_region rb (mask (h a)) (- 1) 0 = Inr (b, v) \<and> b \<noteq> - 1 \<and>
        h' a = (h a)\<lparr>region := Val b\<rparr>)"
proof (induction as arbitrary: h acc)
  case Nil
  then show ?case by simp
next
  case (Cons a as)
  from Cons.prems obtain b v where bv: "best_region rb (mask (h a)) (- 1) 0 = Inr (b, v)"
    by (auto split: sum.splits)
  show ?case
  proof (cases "b \<noteq> - 1 \<and> Some b \<noteq> field_get (region (h a))")
    case True
    let ?h1 = "h(a := (h a)\<lparr>region := Val b\<rparr>)"
    have rest: "reassign_loop rb as ?h1 (acc @ [a]) = Inr (h', out)"
      using Cons.prems bv True by simp
    from Cons.IH [OF rest] obtain new where out: "out = (acc @ [a]) @ new"
      and sub: "set new \<subseteq> set as"
      and un: "\<forall>x. x \<notin> set new \<longrightarrow> h' x = ?h1 x"
      and up: "\<forall>x \<in> set new. \<exists>b v. best_region rb (mask (?h1 x)) (- 1) 0 = Inr (b, v) \<and> b \<noteq> - 1 \<and>
        h' x = (?h1 x)\<lparr>region := Val b\<rparr>"
      by blast
    have 1: "out = acc @ (a # new)" using out by simp
    have 2: "set (a # new) \<subseteq> set (a # as)" using sub by auto
    have 3: "\<forall>x. x \<notin> set (a # new) \<longrightarrow> h' x = h x"
      using un by simp
    have 4: "\<forall>x \<in> set (a # new). \<exists>b v. best_region rb (mask (h x)) (- 1) 0 = Inr (b, v) \<and> b \<noteq> - 1 \<and>
        h' x = (h x)\<lparr>region := Val b\<rparr>"
    proof
      fix x
      assume x: "x \<in> set (a # new)"
      show "\<exists>b v. best_region rb (mask (h x)) (- 1) 0 = Inr (b, v) \<and> b \<noteq> - 1 \<and>
        h' x = (h x)\<lparr>region := Val b\<rparr>"
      proof (cases "x \<in> set new")
        case xin: True
        with up obtain b' v' where b': "best_region rb (mask (?h1 x)) (- 1) 0 = Inr (b', v')"
          "b' \<noteq> - 1" "h' x = (?h1 x)\<lparr>region := Val b'\<rparr>"
          by blast
        show ?thesis
        proof (cases "x = a")
          case xa: True
          with b'(1) bv have "b' = b" "v' = v" by simp_all
          with b' xa bv True show ?thesis by simp
        next
          case False
          with b' show ?thesis by simp
        qed
      next
        case False
        with x have xa: "x = a" by simp
        with False un have "h' a = (h a)\<lparr>region := Val b\<rparr>" by simp
        with bv True xa show ?thesis by simp
      qed
    qed
    from 1 2 3 4 show ?thesis by blast
  next
    case False
    have rest: "reassign_loop rb as h acc = Inr (h', out)"
      using Cons.prems bv False by auto
    from Cons.IH [OF rest] obtain new where "out = acc @ new" "set new \<subseteq> set as"
      "\<forall>a. a \<notin> set new \<longrightarrow> h' a = h a"
      "\<forall>a \<in> set new. \<exists>b v. best_region rb (mask (h a)) (- 1) 0 = Inr (b, v) \<and> b \<noteq> - 1 \<and>
        h' a = (h a)\<lparr>region := Val b\<rparr>"
      by blast
    moreover from this have "set new \<subseteq> set (a # as)" by auto
    ultimately show ?thesis by blast
  qed
qed


lemma settled_update:
  "best_region rb (mask l) (- 1) 0 = Inr (b, v) \<Longrightarrow> settled rb (l\<lparr>region := Val b\<rparr>)"
  by (simp add: settled_def)

lemma reassign_loop_keeps_settled:
  assumes "reassign_loop rb as h acc = Inr (h', out)" and "settled rb (h x)"
  shows "settled rb (h' x)"
proof -
  from reassign_loop_frame [OF assms(1)] obtain new where
    un: "\<forall>a. a \<notin> set new \<longrightarrow> h' a = h a"
    and up: "\<forall>a \<in> set new. \<exists>b v. best_region rb (mask (h a)) (- 1) 0 = Inr (b, v) \<and> b \<noteq> - 1 \<and>
        h' a = (h a)\<lparr>region := Val b\<rparr>"
    by blast
  show ?thesis
  proof (cases "x \<in> set new")
    case True
    with up obtain b v where "best_region rb (mask (h x)) (- 1) 0 = Inr (b, v)"
      "h' x = (h x)\<lparr>region := Val b\<rparr>"
      by blast
    then show ?thesis by (simp add: settled_update)
  next
    case False
    with un assms(2) show ?thesis by simp
  qed
qed

lemma reassign_loop_settles:
  "reassign_loop rb as h acc = Inr (h', out) \<Longrightarrow> \<forall>a \<in> set as. settled rb (h' a)"
proof (induction as arbitrary: h acc)
  case Nil
  then show ?case by simp
next
  case (Cons a as)
  from Cons.prems obtain b v where bv: "best_region rb (mask (h a)) (- 1) 0 = Inr (b, v)"
    by (auto split: sum.splits)
  show ?case
  proof (cases "b \<noteq> - 1 \<and> Some b \<noteq> field_get (region (h a))")
    case True
    let ?h1 = "h(a := (h a)\<lparr>region := Val b\<rparr>)"
    have rest: "reassign_loop rb as ?h1 (acc @ [a]) = Inr (h', out)"
      using Cons.prems bv True by simp
    have "settled rb (?h1 a)"
      using bv by (simp add: settled_update)
    then have "settled rb (h' a)"
      using rest by (rule reassign_loop_keeps_settled [rotated])
    with Cons.IH [OF rest] show ?thesis by simp
  next
    case False
    have rest: "reassign_loop rb as h acc = Inr (h', out)"
      using Cons.prems bv False by auto
    have "settled rb (h a)"
      using bv False by (simp add: settled_def)
    then have "settled rb (h' a)"
      using rest by (rule reassign_loop_keeps_settled [rotated])
    with Cons.IH [OF rest] show ?thesis by simp
  qed
qed

lemma reassign_loop_settled:
  "\<forall>a \<in> set as. settled rb (h a) \<Longrightarrow> reassign_loop rb as h acc = Inr (h, acc)"
  by (induction as arbitrary: acc) (auto simp: settled_def split: sum.splits)

text \<open>
  C5. Region assignment is idempotent: when \<^verbatim>\<open>detect_reassignment\<close> returns, running
  it again on the same lines and regions, in the store the first run left, returns an
  empty list and changes nothing.
\<close>

theorem reassignment_idempotent:
  assumes "detect_reassignment lines regions h = Inr (h', out)"
  shows "detect_reassignment lines regions h' = Inr (h', [])"
proof -
  from assms obtain rb where rb: "region_bboxes regions [] = Inr rb"
    and loop: "reassign_loop rb lines h [] = Inr (h', out)"
    by (auto simp: detect_reassignment_def split: sum.splits)
  have "\<forall>a \<in> set lines. settled rb (h' a)"
    using loop by (rule reassign_loop_settles)
  then have "reassign_loop rb lines h' [] = Inr (h', [])"
    by (rule reassign_loop_settled)
  with rb show ?thesis by (simp add: detect_reassignment_def)
qed

lemma best_region_idx:
  "best_region rb m bi bv = Inr (ri, rv) \<Longrightarrow> ri = bi \<or> ri \<in> fst ` set rb"
proof (induction rb arbitrary: bi bv)
  case Nil
  then show ?case by simp
next
  case (Cons e rest)
  obtain idx zone where e: "e = (idx, zone)" by (cases e)
  from Cons.prems obtain lb cur where "extract_field m = Inr lb"
    "rel_intersection lb zone = Inr cur"
    "best_region rest m (if cur > bv \<and> cur > 0 then idx else bi)
       (if cur > bv \<and> cur > 0 then cur else bv) = Inr (ri, rv)"
    by (auto simp: e split: sum.splits if_splits)
  from Cons.IH [OF this(3)] show ?case
    by (auto simp: e split: if_splits)
qed

lemma region_bboxes_keys:
  "region_bboxes rs d = Inr d' \<Longrightarrow> fst ` set d' = fst ` set d \<union> region_pk ` set (boxed rs)"
proof (induction rs arbitrary: d)
  case Nil
  then show ?case by (simp add: boxed_def)
next
  case (Cons r rs)
  show ?case
  proof (cases "truthy (box r)")
    case False
    then show ?thesis using Cons by (simp add: boxed_def)
  next
    case True
    with Cons.prems obtain b where b: "extract_field (box r) = Inr b"
      and rest: "region_bboxes rs (AList.update (region_pk r) b d) = Inr d'"
      by (auto split: sum.splits)
    have "fst ` set d' = fst ` set (AList.update (region_pk r) b d) \<union> region_pk ` set (boxed rs)"
      using Cons.IH [OF rest] .
    then show ?thesis
      using True by (simp add: boxed_def dom_update)
  qed
qed

text \<open>
  C10. Every address in the returned list is one of the caller's lines; the object
  there is the caller's with its \<^verbatim>\<open>region\<close> key set to the identifier of a region
  that has a box, every other key as it was; and every object that is not in the
  returned list is unchanged.
\<close>

theorem reassignment_frame:
  assumes "detect_reassignment lines regions h = Inr (h', out)"
  shows "set out \<subseteq> set lines \<and>
    (\<forall>a \<in> set out. \<exists>r \<in> set regions. truthy (box r) \<and> h' a = (h a)\<lparr>region := Val (region_pk r)\<rparr>) \<and>
    (\<forall>a. a \<notin> set out \<longrightarrow> h' a = h a)"
proof -
  from assms obtain rb where rb: "region_bboxes regions [] = Inr rb"
    and loop: "reassign_loop rb lines h [] = Inr (h', out)"
    by (auto simp: detect_reassignment_def split: sum.splits)
  have keys: "fst ` set rb = region_pk ` set (boxed regions)"
    using region_bboxes_keys [OF rb] by simp
  from reassign_loop_frame [OF loop] have sub: "set out \<subseteq> set lines"
    and un: "\<forall>a. a \<notin> set out \<longrightarrow> h' a = h a"
    and up: "\<forall>a \<in> set out. \<exists>b v. best_region rb (mask (h a)) (- 1) 0 = Inr (b, v) \<and> b \<noteq> - 1 \<and>
        h' a = (h a)\<lparr>region := Val b\<rparr>"
    by simp_all
  have "\<exists>r \<in> set regions. truthy (box r) \<and> h' a = (h a)\<lparr>region := Val (region_pk r)\<rparr>"
    if "a \<in> set out" for a
  proof -
    from up that obtain b v where b: "best_region rb (mask (h a)) (- 1) 0 = Inr (b, v)"
      "b \<noteq> - 1" "h' a = (h a)\<lparr>region := Val b\<rparr>"
      by blast
    from best_region_idx [OF b(1)] b(2) have "b \<in> fst ` set rb" by simp
    with keys obtain r where "r \<in> set (boxed regions)" "b = region_pk r" by auto
    then have "r \<in> set regions" "truthy (box r)" by (simp_all add: boxed_def)
    with b(3) \<open>b = region_pk r\<close> show ?thesis by blast
  qed
  with sub un show ?thesis by blast
qed











text \<open>Unfolding the region-assignment engine on concrete lines and regions.\<close>

lemmas eval_reassignment =
  detect_reassignment_def num_line_def num_region_def one_line_def boxed_def
  best_candidate_def overlaps_def truediv_def Let_def



text \<open>
  \<^verbatim>\<open>detect_duplicates_to_delete\<close> leaves a line without a mask out: with distinct
  identifiers, the identifier of such a line is never in its result.
\<close>

lemma maskless_line_not_deleted:
  assumes res: "detect_duplicates_to_delete lines = Inr out"
    and dist: "distinct (map pk lines)"
    and l: "l \<in> set lines" "\<not> truthy (mask l)"
  shows "pk l \<notin> out"
proof
  assume "pk l \<in> out"
  from res obtain d where d: "line_bboxes lines [] = Inr d"
    and out: "out = nominated (combinations2 d)"
    using detect_duplicates_nominated by blast
  from \<open>pk l \<in> out\<close> obtain i j where "i < j" "j < length d"
    "pk l = (if fst (snd (d ! i)) < fst (snd (d ! j)) then fst (d ! i) else fst (d ! j))"
    unfolding out nominated_by_index by blast
  then have "pk l = fst (d ! i) \<or> pk l = fst (d ! j)" "i < length d" "j < length d"
    by (simp_all split: if_splits)
  then have "pk l \<in> fst ` set d"
    by (metis imageI nth_mem)
  then have "pk l \<in> pk ` set (masked lines)"
    using line_bboxes_keys [OF d] by simp
  then obtain l' where l': "l' \<in> set lines" "truthy (mask l')" "pk l' = pk l"
    by (auto simp: masked_def)
  from dist l(1) l'(1,3) have "l' = l"
    by (meson distinct_map inj_onD)
  with l(2) l'(2) show False by simp
qed

text \<open>
  \<^verbatim>\<open>detect_reassignment\<close> does not filter the lines: as soon as one region has a box,
  the inner loop calls \<^verbatim>\<open>extract_bbox(line["mask"])\<close> for every line, and a line
  without a mask makes the whole call raise.
\<close>

lemma maskless_extract_fails: "\<not> truthy m \<Longrightarrow> \<exists>e. extract_field m = Inl e"
proof (cases m)
  case (Val p)
  assume "\<not> truthy m"
  with Val have "points p = []" by simp
  then have "extract_bbox p = Inl IndexError" by (cases p) simp_all
  with Val show ?thesis by simp
qed simp_all

lemma reassign_loop_fails:
  "a \<in> set as \<Longrightarrow> extract_field (mask (h a)) = Inl e0 \<Longrightarrow> rb \<noteq> [] \<Longrightarrow>
   \<exists>e. reassign_loop rb as h acc = Inl e"
proof (induction as arbitrary: h acc)
  case Nil
  then show ?case by simp
next
  case (Cons x xs)
  show ?case
  proof (cases "best_region rb (mask (h x)) (- 1) 0")
    case (Inl e)
    then show ?thesis by simp
  next
    case (Inr p)
    obtain b v where p: "p = (b, v)" by (cases p)
    have "x \<noteq> a"
    proof
      assume "x = a"
      with Cons.prems have "best_region rb (mask (h x)) (- 1) 0 = Inl e0"
        by (simp add: best_region_error)
      with Inr show False by simp
    qed
    with Cons.prems have a: "a \<in> set xs" by simp
    let ?h1 = "h(x := (h x)\<lparr>region := Val b\<rparr>)"
    have m1: "extract_field (mask (?h1 a)) = Inl e0"
      using \<open>x \<noteq> a\<close> Cons.prems(2) by simp
    show ?thesis
    proof (cases "b \<noteq> - 1 \<and> Some b \<noteq> field_get (region (h x))")
      case True
      have "\<exists>e. reassign_loop rb xs ?h1 (acc @ [x]) = Inl e"
        using a m1 Cons.prems(3) by (rule Cons.IH)
      moreover have "reassign_loop rb (x # xs) h acc = reassign_loop rb xs ?h1 (acc @ [x])"
        using Inr p True by simp
      ultimately show ?thesis by simp
    next
      case False
      have "\<exists>e. reassign_loop rb xs h acc = Inl e"
        using a Cons.prems(2,3) by (rule Cons.IH)
      moreover have "reassign_loop rb (x # xs) h acc = reassign_loop rb xs h acc"
        using Inr p False by auto
      ultimately show ?thesis by simp
    qed
  qed
qed

text \<open>
  C2 fails for \<^verbatim>\<open>detect_reassignment\<close>. When a line has no mask (the key is absent, \<^verbatim>\<open>null\<close> or an
  empty list) and some region has a box, \<^verbatim>\<open>detect_reassignment\<close> raises: it neither
  skips that line nor returns a list.
\<close>

theorem reassignment_raises_on_maskless_line:
  assumes "a \<in> set lines" and "\<not> truthy (mask (h a))" and "\<exists>r \<in> set regions. truthy (box r)"
  shows "\<exists>e. detect_reassignment lines regions h = Inl e"
proof (cases "region_bboxes regions []")
  case (Inl e)
  then show ?thesis by (simp add: detect_reassignment_def)
next
  case (Inr rb)
  from assms(3) have "boxed regions \<noteq> []" by (auto simp: boxed_def filter_empty_conv)
  then have "region_pk ` set (boxed regions) \<noteq> {}" by simp
  then have "rb \<noteq> []"
    using region_bboxes_keys [OF Inr] by auto
  moreover from assms(2) obtain e0 where "extract_field (mask (h a)) = Inl e0"
    using maskless_extract_fails by blast
  ultimately have "\<exists>e. reassign_loop rb lines h [] = Inl e"
    using assms(1) by (intro reassign_loop_fails)
  with Inr show ?thesis by (simp add: detect_reassignment_def)
qed

section \<open>Rounded quotients\<close>

text \<open>
  Why the bound on the coordinates is enough. Let \<open>fl\<close> be any rounding of the
  quotients in \<open>[0, 1]\<close> that is monotone, keeps \<open>0\<close> and \<open>1/2\<close>, and moves no value by
  more than \<open>2^-54\<close> (rounding to the nearest double does: below \<open>1\<close> the doubles are
  at most \<open>2^-53\<close> apart). Over a divisor below \<open>2^53\<close> the rounded quotients pass the
  tests of the two loops exactly when the quotients themselves do.
\<close>

lemma rounded_half_test:
  fixes fl :: "rat \<Rightarrow> rat" and a u :: int
  assumes mono: "\<And>x y. x \<le> y \<Longrightarrow> fl x \<le> fl y"
    and half: "fl (1 / 2) = 1 / 2"
    and near: "\<And>q. 0 \<le> q \<Longrightarrow> q \<le> 1 \<Longrightarrow> \<bar>fl q - q\<bar> \<le> 1 / 2 ^ 54"
    and a: "0 \<le> a" "a \<le> u" and u: "0 < u" "u < 2 ^ 53"
  shows "1 / 2 < fl (of_int a / of_int u) \<longleftrightarrow> (1 / 2 :: rat) < of_int a / of_int u"
proof
  let ?q = "rat_of_int a / rat_of_int u"
  assume "1 / 2 < ?q"
  then have "rat_of_int u < 2 * rat_of_int a"
    using u by (simp add: field_simps)
  then have "u < 2 * a" by (metis of_int_less_iff of_int_mult of_int_numeral)
  then have "u + 1 \<le> 2 * a" by simp
  then have "rat_of_int (u + 1) \<le> rat_of_int (2 * a)" by (simp only: of_int_le_iff)
  then have 1: "rat_of_int u + 1 \<le> 2 * rat_of_int a" by simp
  have upos: "0 < rat_of_int u" using u by simp
  have "2 * rat_of_int u < 2 ^ 54"
  proof -
    have "rat_of_int u < rat_of_int (2 ^ 53)" using u by (simp only: of_int_less_iff)
    then show ?thesis by simp
  qed
  then have 2: "1 / 2 ^ 54 < 1 / (2 * rat_of_int u)"
    using upos by (intro divide_strict_left_mono) simp_all
  have "1 / 2 + 1 / (2 * rat_of_int u) = (rat_of_int u + 1) / (2 * rat_of_int u)"
    using upos by (simp add: field_simps)
  also have "\<dots> \<le> (2 * rat_of_int a) / (2 * rat_of_int u)"
    using 1 upos by (intro divide_right_mono) simp_all
  also have "\<dots> = ?q" by simp
  finally have 3: "1 / 2 + 1 / (2 * rat_of_int u) \<le> ?q" .
  have q01: "0 \<le> ?q" "?q \<le> 1"
    using a u by simp_all
  from near [OF q01] have "?q - 1 / 2 ^ 54 \<le> fl ?q" by linarith
  with 2 3 show "1 / 2 < fl ?q" by linarith
next
  let ?q = "rat_of_int a / rat_of_int u"
  assume h: "1 / 2 < fl ?q"
  show "1 / 2 < ?q"
  proof (rule ccontr)
    assume "\<not> 1 / 2 < ?q"
    then have "?q \<le> 1 / 2" by simp
    then have "fl ?q \<le> fl (1 / 2)" by (rule mono)
    with half h show False by simp
  qed
qed

lemma rounded_order_test:
  fixes fl :: "rat \<Rightarrow> rat" and m n d :: int
  assumes mono: "\<And>x y. x \<le> y \<Longrightarrow> fl x \<le> fl y"
    and near: "\<And>q. 0 \<le> q \<Longrightarrow> q \<le> 1 \<Longrightarrow> \<bar>fl q - q\<bar> \<le> 1 / 2 ^ 54"
    and m: "0 \<le> m" "m \<le> d" and n: "0 \<le> n" "n \<le> d" and d: "0 < d" "d < 2 ^ 53"
  shows "fl (of_int m / of_int d) < fl (of_int n / of_int d) \<longleftrightarrow>
         (of_int m / of_int d :: rat) < of_int n / of_int d"
proof
  let ?p = "rat_of_int m / rat_of_int d"
  let ?q = "rat_of_int n / rat_of_int d"
  have dpos: "0 < rat_of_int d" using d by simp
  assume "?p < ?q"
  then have "rat_of_int m < rat_of_int n"
    using dpos by (simp add: divide_less_cancel)
  then have "m + 1 \<le> n" by simp
  then have "rat_of_int (m + 1) \<le> rat_of_int n" by (simp only: of_int_le_iff)
  then have "(rat_of_int m + 1) / rat_of_int d \<le> ?q"
    using dpos by (intro divide_right_mono) simp_all
  then have 1: "?p + 1 / rat_of_int d \<le> ?q"
    by (simp add: add_divide_distrib)
  have "rat_of_int d < rat_of_int (2 ^ 53)" using d by (simp only: of_int_less_iff)
  then have "rat_of_int d < 2 ^ 53" by simp
  then have 2: "1 / 2 ^ 53 < 1 / rat_of_int d"
    using dpos by (intro divide_strict_left_mono) simp_all
  have p01: "0 \<le> ?p" "?p \<le> 1" using m d by simp_all
  have q01: "0 \<le> ?q" "?q \<le> 1" using n d by simp_all
  from near [OF p01] have 3: "fl ?p \<le> ?p + 1 / 2 ^ 54" by linarith
  from near [OF q01] have 4: "?q - 1 / 2 ^ 54 \<le> fl ?q" by linarith
  have "(1 / 2 ^ 54 :: rat) + 1 / 2 ^ 54 = 1 / 2 ^ 53" by simp
  with 1 2 3 4 show "fl ?p < fl ?q" by linarith
next
  let ?p = "rat_of_int m / rat_of_int d"
  let ?q = "rat_of_int n / rat_of_int d"
  assume h: "fl ?p < fl ?q"
  show "?p < ?q"
  proof (rule ccontr)
    assume "\<not> ?p < ?q"
    then have "?q \<le> ?p" by simp
    then have "fl ?q \<le> fl ?p" by (rule mono)
    with h show False by simp
  qed
qed

section \<open>Both engines return\<close>

text \<open>
  Neither engine can raise on a mask that passed the filter: a non-empty mask always
  has a bounding box. So \<^verbatim>\<open>detect_duplicates_to_delete\<close> always returns, and
  \<^verbatim>\<open>detect_reassignment\<close> returns whenever every line has a non-empty mask.
\<close>

lemma truthy_extract: "truthy m \<Longrightarrow> \<exists>b. extract_field m = Inr b"
proof (cases m)
  case (Val p)
  assume "truthy m"
  with Val have ne: "points p \<noteq> []" by simp
  then obtain q qs where "points p = q # qs" by (cases "points p") auto
  then have "\<exists>b. extract_bbox p = Inr b"
    by (cases p) (simp_all add: Let_def)
  with Val show ?thesis by simp
qed simp_all

lemma line_bboxes_returns: "\<exists>d'. line_bboxes ls d = Inr d'"
proof (induction ls arbitrary: d)
  case Nil
  show ?case by simp
next
  case (Cons l ls)
  show ?case
  proof (cases "truthy (mask l)")
    case True
    then obtain b where "extract_field (mask l) = Inr b"
      using truthy_extract by blast
    with True Cons.IH [of "AList.update (pk l) b d"] show ?thesis by simp
  next
    case False
    with Cons.IH [of d] show ?thesis by simp
  qed
qed

lemma duplicates_loop_returns: "\<exists>out. duplicates_loop ps td ck = Inr out"
proof (induction ps arbitrary: td ck)
  case Nil
  show ?case by simp
next
  case (Cons p ps)
  obtain e1 e2 where p: "p = (e1, e2)" by (cases p)
  show ?case
    using Cons.IH [of td ck] Cons.IH [of "insert (delete_id e1 e2) td" "insert (pair_key (fst e1) (fst e2)) ck"]
      Cons.IH [of td "insert (pair_key (fst e1) (fst e2)) ck"]
    by (simp add: p iou_eq)
qed

lemma detect_duplicates_returns: "\<exists>out. detect_duplicates_to_delete lines = Inr out"
proof -
  obtain d where "line_bboxes lines [] = Inr d"
    using line_bboxes_returns by blast
  then show ?thesis
    using duplicates_loop_returns [of "combinations2 d" "{}" "{}"]
    by (simp add: detect_duplicates_to_delete_def)
qed

lemma region_bboxes_returns: "\<exists>d'. region_bboxes rs d = Inr d'"
proof (induction rs arbitrary: d)
  case Nil
  show ?case by simp
next
  case (Cons r rs)
  show ?case
  proof (cases "truthy (box r)")
    case True
    then obtain b where "extract_field (box r) = Inr b"
      using truthy_extract by blast
    with True Cons.IH [of "AList.update (region_pk r) b d"] show ?thesis by simp
  next
    case False
    with Cons.IH [of d] show ?thesis by simp
  qed
qed

lemma reassign_loop_returns:
  "\<forall>a \<in> set as. truthy (mask (h a)) \<Longrightarrow> \<exists>h' out. reassign_loop rb as h acc = Inr (h', out)"
proof (induction as arbitrary: h acc)
  case Nil
  show ?case by simp
next
  case (Cons x xs)
  from Cons.prems obtain lb where lb: "extract_field (mask (h x)) = Inr lb"
    using truthy_extract by fastforce
  from best_region_scan [OF lb, of 0 rb "- 1"] obtain b v where
    bv: "best_region rb (mask (h x)) (- 1) 0 = Inr (b, v)"
    by auto
  let ?h1 = "h(x := (h x)\<lparr>region := Val b\<rparr>)"
  have t1: "\<forall>a \<in> set xs. truthy (mask (?h1 a))"
    using Cons.prems by simp
  have t0: "\<forall>a \<in> set xs. truthy (mask (h a))"
    using Cons.prems by simp
  show ?case
  proof (cases "b \<noteq> - 1 \<and> Some b \<noteq> field_get (region (h x))")
    case True
    have "\<exists>h' out. reassign_loop rb xs ?h1 (acc @ [x]) = Inr (h', out)"
      using t1 by (rule Cons.IH)
    moreover have "reassign_loop rb (x # xs) h acc = reassign_loop rb xs ?h1 (acc @ [x])"
      using bv True by simp
    ultimately show ?thesis by simp
  next
    case False
    have "\<exists>h' out. reassign_loop rb xs h acc = Inr (h', out)"
      using t0 by (rule Cons.IH)
    moreover have "reassign_loop rb (x # xs) h acc = reassign_loop rb xs h acc"
      using bv False by auto
    ultimately show ?thesis by simp
  qed
qed

lemma detect_reassignment_returns:
  assumes "\<forall>a \<in> set lines. truthy (mask (h a))"
  shows "\<exists>h' out. detect_reassignment lines regions h = Inr (h', out)"
proof -
  obtain rb where "region_bboxes regions [] = Inr rb"
    using region_bboxes_returns by blast
  then show ?thesis
    using reassign_loop_returns [OF assms, of rb "[]"]
    by (simp add: detect_reassignment_def)
qed

section \<open>Region assignment on a concrete page\<close>

theorem reassignment_idempotent_witness:
  "detect_reassignment [0]
     [num_region 7 [(0, 0), (10, 10)], num_region 8 [(20, 20), (30, 30)]]
     (one_line (num_line 1 [(1, 1), (5, 5)]))
     = Inr ((one_line (num_line 1 [(1, 1), (5, 5)]))
              (0 := (num_line 1 [(1, 1), (5, 5)])\<lparr>region := Val 7\<rparr>), [0]) \<and>
   detect_reassignment [0]
     [num_region 7 [(0, 0), (10, 10)], num_region 8 [(20, 20), (30, 30)]]
     ((one_line (num_line 1 [(1, 1), (5, 5)]))
        (0 := (num_line 1 [(1, 1), (5, 5)])\<lparr>region := Val 7\<rparr>))
     = Inr ((one_line (num_line 1 [(1, 1), (5, 5)]))
              (0 := (num_line 1 [(1, 1), (5, 5)])\<lparr>region := Val 7\<rparr>), [])"
proof -
  let ?R = "[num_region 7 [(0, 0), (10, 10)], num_region 8 [(20, 20), (30, 30)]]"
  let ?H = "one_line (num_line 1 [(1, 1), (5, 5)])"
  let ?H' = "?H(0 := (num_line 1 [(1, 1), (5, 5)])\<lparr>region := Val 7\<rparr>)"
  have h1: "detect_reassignment [0] ?R ?H = Inr (?H', [0])"
    by (simp add: eval_reassignment)
  from reassignment_idempotent [OF h1] h1 show ?thesis
    by (intro conjI)
qed

theorem reassignment_frame_witness:
  "detect_reassignment [0]
     [num_region 7 [(0, 0), (10, 10)], num_region 8 [(20, 20), (30, 30)]]
     (one_line (num_line 1 [(1, 1), (5, 5)]))
     = Inr ((one_line (num_line 1 [(1, 1), (5, 5)]))
              (0 := (num_line 1 [(1, 1), (5, 5)])\<lparr>region := Val 7\<rparr>), [0]) \<and>
   set [0 :: nat] \<subseteq> set [0] \<and>
   (\<exists>r \<in> set [num_region 7 [(0, 0), (10, 10)], num_region 8 [(20, 20), (30, 30)]].
      truthy (box r) \<and>
      ((one_line (num_line 1 [(1, 1), (5, 5)]))
         (0 := (num_line 1 [(1, 1), (5, 5)])\<lparr>region := Val 7\<rparr>)) 0
      = (one_line (num_line 1 [(1, 1), (5, 5)]) 0)\<lparr>region := Val (region_pk r)\<rparr>) \<and>
   ((one_line (num_line 1 [(1, 1), (5, 5)]))
      (0 := (num_line 1 [(1, 1), (5, 5)])\<lparr>region := Val 7\<rparr>)) 1
   = one_line (num_line 1 [(1, 1), (5, 5)]) 1"
proof -
  let ?R = "[num_region 7 [(0, 0), (10, 10)], num_region 8 [(20, 20), (30, 30)]]"
  let ?H = "one_line (num_line 1 [(1, 1), (5, 5)])"
  let ?H' = "?H(0 := (num_line 1 [(1, 1), (5, 5)])\<lparr>region := Val 7\<rparr>)"
  have h1: "detect_reassignment [0] ?R ?H = Inr (?H', [0])"
    by (simp add: eval_reassignment)
  note f = reassignment_frame [OF h1]
  from f have sub: "set [0 :: nat] \<subseteq> set [0]" by (rule conjunct1)
  from f have "\<forall>a \<in> set [0 :: nat]. \<exists>r \<in> set ?R. truthy (box r) \<and>
      ?H' a = (?H a)\<lparr>region := Val (region_pk r)\<rparr>"
    by blast
  then have up: "\<exists>r \<in> set ?R. truthy (box r) \<and> ?H' 0 = (?H 0)\<lparr>region := Val (region_pk r)\<rparr>"
    by simp
  from f have "\<forall>a. a \<notin> set [0 :: nat] \<longrightarrow> ?H' a = ?H a" by blast
  then have un: "?H' 1 = ?H 1" by simp
  from h1 sub up un show ?thesis by (intro conjI)
qed


theorem reassignment_raises_on_maskless_line_witness:
  "(0 :: nat) \<in> set [0] \<and> \<not> truthy (mask (one_line (num_line 1 []) 0)) \<and>
   truthy (box (num_region 7 [(0, 0), (10, 10)])) \<and>
   detect_reassignment [0] [num_region 7 [(0, 0), (10, 10)]] (one_line (num_line 1 []))
     = Inl IndexError"
proof -
  let ?R = "[num_region 7 [(0, 0), (10, 10)]]"
  let ?H = "one_line (num_line 1 [])"
  have h1: "(0 :: nat) \<in> set [0]" by simp
  have h2: "\<not> truthy (mask (?H 0))" by (simp add: eval_reassignment)
  have t: "truthy (box (num_region 7 [(0, 0), (10, 10)]))" by (simp add: eval_reassignment)
  then have h3: "\<exists>r \<in> set ?R. truthy (box r)" by simp
  from reassignment_raises_on_maskless_line [where a = 0 and h = ?H and lines = "[0]"
      and regions = ?R, OF h1 h2 h3]
  obtain e where e: "detect_reassignment [0] ?R ?H = Inl e" by blast
  have "detect_reassignment [0] ?R ?H = Inl IndexError"
    by (simp add: eval_reassignment)
  with h1 h2 t e show ?thesis by (intro conjI)
qed

end
